theory Spec2Isabelle
  imports Main
begin

section \<open>Errors, navigation kinds and history entries\<close>

text \<open>
  The errors of \<^verbatim>\<open>app-history-errors\<close> / \<^verbatim>\<open>navigation-errors\<close>; every other thrown
  value (a listener's or a sub-operation's own failure) is an \<open>ApplicationError\<close>.
\<close>

datatype error =
    InvalidStateError string
  | AbortError
  | ApplicationError string

definition isInvalidStateError :: "error \<Rightarrow> bool" where
  "isInvalidStateError e = (case e of InvalidStateError m \<Rightarrow> True | _ \<Rightarrow> False)"

definition isAbortError :: "error \<Rightarrow> bool" where
  "isAbortError e = (case e of AbortError \<Rightarrow> True | _ \<Rightarrow> False)"

text \<open>
  The public navigation types are the strings "push", "replace", "traverse" and "reload";
  the internal type adds the symbols \<open>Rollback\<close>, \<open>UpdateCurrent\<close> and \<open>Unset\<close>.
\<close>

datatype AppHistoryNavigationType = Push | Replace | Traverse | Reload

datatype InternalAppHistoryNavigationType =
    NavString AppHistoryNavigationType
  | Rollback
  | UpdateCurrent
  | Unset

definition isString :: "InternalAppHistoryNavigationType \<Rightarrow> bool" where
  "isString t = (case t of NavString n \<Rightarrow> True | _ \<Rightarrow> False)"

record AppHistoryEntry =
  entryId :: string
  key :: string
  url :: "string option"
  sameDocument :: bool
  entryState :: "string option"
  entryNavigationType :: AppHistoryNavigationType

record InternalAppHistoryNavigateOptions =
  optReplace :: bool
  optState :: "string option"
  optIndex :: "int option"
  optKnown :: "AppHistoryEntry list option"
  optEntries :: "AppHistoryEntry list option"
  optNavigationType :: "AppHistoryNavigationType option"

text \<open>
  What the constructor of \<^verbatim>\<open>AppHistoryEntry\<close> supplies for a new object: its identity, a
  key for an entry that inherits none, and the same-document flag of an entry that
  inherits none.
\<close>

record Fresh =
  freshId :: string
  freshKey :: string
  freshSameDocument :: bool

section \<open>The state of the Navigator\<close>

text \<open>
  The variables a rollback closure captures (\<^verbatim>\<open>#createRollback\<close>: \<^verbatim>\<open>current\<close>,
  \<^verbatim>\<open>previousEntries\<close>, \<^verbatim>\<open>previousIndex\<close>, \<^verbatim>\<open>known\<close>).
\<close>

record RollbackSnapshot =
  snapCurrent :: "AppHistoryEntry option"
  previousEntries :: "AppHistoryEntry list"
  previousIndex :: int
  snapKnown :: "AppHistoryEntry list"

record AppHistoryTransition =
  tFinished :: nat
  tFrom :: AppHistoryEntry
  tNavigationType :: AppHistoryNavigationType
  tRollback :: RollbackSnapshot

text \<open>
  One link of the promise chain built by \<^verbatim>\<open>#commitTransition\<close>: the arguments its
  \<^verbatim>\<open>then\<close> callback hands to \<^verbatim>\<open>#immediateTransition\<close>, and how far that call has come.
\<close>

datatype linkStatus = Pending | Running | Settled | FailedMultiple

record ChainLink =
  linkType :: InternalAppHistoryNavigationType
  linkEntry :: AppHistoryEntry
  linkTransition :: AppHistoryTransition
  linkOptions :: "InternalAppHistoryNavigateOptions option"
  linkStatus :: linkStatus

text \<open>
  A promise handed to the caller: already resolved, or the promise of a chain link.
\<close>

datatype 'a promise = Resolved 'a | Chained nat

record AppHistoryResult =
  committed :: "AppHistoryEntry promise"
  finished :: "AppHistoryEntry promise"

text \<open>
  The private fields of class \<^verbatim>\<open>AppHistory\<close>. \<open>known\<close> is a JavaScript \<^verbatim>\<open>Set\<close>, kept in
  insertion order; abort controllers are numbered and \<open>abortedSignals\<close> holds those whose
  signal has fired.
\<close>

record AppHistory =
  transitionInProgressCount :: int
  entries :: "AppHistoryEntry list"
  known :: "AppHistoryEntry list"
  currentIndex :: int
  activePromise :: "nat option"
  activeTransition :: "AppHistoryTransition option"
  inProgressAbortController :: "nat option"
  abortedSignals :: "nat set"
  controllers :: nat
  knownTransitions :: "AppHistoryTransition list"
  chain :: "ChainLink list"

definition initialAppHistory :: AppHistory where
  "initialAppHistory =
     \<lparr> transitionInProgressCount = 0, entries = [], known = [], currentIndex = -1,
       activePromise = None, activeTransition = None, inProgressAbortController = None,
       abortedSignals = {}, controllers = 0, knownTransitions = [], chain = [] \<rparr>"

section \<open>Array and set primitives\<close>

text \<open>\<^verbatim>\<open>xs[i]\<close>: \<^verbatim>\<open>undefined\<close> outside the array.\<close>

definition nthOpt :: "'a list \<Rightarrow> int \<Rightarrow> 'a option" where
  "nthOpt xs i = (if 0 \<le> i \<and> i < int (length xs) then Some (xs ! nat i) else None)"

text \<open>\<^verbatim>\<open>Array.prototype.findIndex\<close>: the first position that satisfies the test, or -1.\<close>

fun findIndex :: "('a \<Rightarrow> bool) \<Rightarrow> 'a list \<Rightarrow> int" where
  "findIndex P [] = -1"
| "findIndex P (x # xs) =
     (if P x then 0 else (let i = findIndex P xs in if i = -1 then -1 else i + 1))"

text \<open>\<^verbatim>\<open>Set.prototype.add\<close> and \<^verbatim>\<open>new Set(iterable)\<close>, in insertion order.\<close>

definition setAdd :: "'a \<Rightarrow> 'a list \<Rightarrow> 'a list" where
  "setAdd x xs = (if x \<in> set xs then xs else xs @ [x])"

definition newSet :: "'a list \<Rightarrow> 'a list" where
  "newSet xs = foldl (\<lambda>acc x. setAdd x acc) [] xs"

section \<open>Getters\<close>

definition canGoBack :: "AppHistory \<Rightarrow> bool" where
  "canGoBack s =
     (if currentIndex s = 0 then False
      else nthOpt (entries s) (currentIndex s - 1) \<noteq> None)"

definition canGoForward :: "AppHistory \<Rightarrow> bool" where
  "canGoForward s =
     (if currentIndex s = -1 then False
      else if currentIndex s = int (length (entries s)) - 1 then False
      else nthOpt (entries s) (currentIndex s + 1) \<noteq> None)"

definition current :: "AppHistory \<Rightarrow> AppHistoryEntry option" where
  "current s = (if currentIndex s = -1 then None else nthOpt (entries s) (currentIndex s))"

section \<open>Creating entries\<close>

text \<open>
  Modelled from the spec: class \<^verbatim>\<open>AppHistoryEntry\<close> (file \<^verbatim>\<open>app-history-entry\<close>) is not part
  of the sources. Following the data model of the specification, every constructed entry
  gets an identity of its own, and the key, url and same-document flag of the entry it is
  cloned from when there is one.
\<close>

definition cloneAppHistoryEntry ::
  "AppHistoryEntry option \<Rightarrow> InternalAppHistoryNavigateOptions option \<Rightarrow> Fresh \<Rightarrow> AppHistoryEntry" where
  "cloneAppHistoryEntry entry options fresh =
     \<lparr> entryId = freshId fresh,
       key = (case entry of Some e \<Rightarrow> key e | None \<Rightarrow> freshKey fresh),
       url = (case entry of Some e \<Rightarrow> url e | None \<Rightarrow> None),
       sameDocument = (case entry of Some e \<Rightarrow> sameDocument e | None \<Rightarrow> freshSameDocument fresh),
       entryState =
         (case (case options of Some opts \<Rightarrow> optState opts | None \<Rightarrow> None) of
            Some st \<Rightarrow> Some st
          | None \<Rightarrow> (case entry of Some e \<Rightarrow> entryState e | None \<Rightarrow> None)),
       entryNavigationType =
         (case (case options of Some opts \<Rightarrow> optNavigationType opts | None \<Rightarrow> None) of
            Some t \<Rightarrow> t
          | None \<Rightarrow> (case entry of Some e \<Rightarrow> entryNavigationType e | None \<Rightarrow> Replace)) \<rparr>"

definition createAppHistoryEntry ::
  "string \<Rightarrow> InternalAppHistoryNavigateOptions option \<Rightarrow> AppHistoryNavigationType \<Rightarrow> Fresh
     \<Rightarrow> AppHistoryEntry" where
  "createAppHistoryEntry u options t fresh =
     \<lparr> entryId = freshId fresh, key = freshKey fresh, url = Some u,
       sameDocument = freshSameDocument fresh,
       entryState = (case options of Some opts \<Rightarrow> optState opts | None \<Rightarrow> None),
       entryNavigationType = t \<rparr>"

section \<open>Accepting a request: \<^verbatim>\<open>#pushEntry\<close> and \<^verbatim>\<open>#commitTransition\<close>\<close>

definition createRollback :: "AppHistory \<Rightarrow> RollbackSnapshot" where
  "createRollback s =
     \<lparr> snapCurrent = current s, previousEntries = entries s,
       previousIndex = currentIndex s, snapKnown = known s \<rparr>"

definition queueTransition :: "AppHistoryTransition \<Rightarrow> AppHistory \<Rightarrow> AppHistory" where
  "queueTransition t s = s\<lparr>knownTransitions := setAdd t (knownTransitions s)\<rparr>"

text \<open>\<^verbatim>\<open>this.#inProgressAbortController?.abort()\<close>\<close>

definition abortInProgress :: "AppHistory \<Rightarrow> AppHistory" where
  "abortInProgress s =
     (case inProgressAbortController s of
        None \<Rightarrow> s
      | Some c \<Rightarrow> s\<lparr>abortedSignals := insert c (abortedSignals s)\<rparr>)"

definition commitTransition ::
  "InternalAppHistoryNavigationType \<Rightarrow> AppHistoryEntry \<Rightarrow> AppHistoryTransition option
     \<Rightarrow> InternalAppHistoryNavigateOptions option \<Rightarrow> AppHistory \<Rightarrow> AppHistory \<times> AppHistoryResult" where
  "commitTransition givenNavigationType entry transition options s =
     (let link = length (chain s);
          s1 = s\<lparr>activePromise := Some link\<rparr>;
          nextTransition =
            \<lparr> tFinished = link, tFrom = entry,
              tNavigationType = (case givenNavigationType of NavString t \<Rightarrow> t | _ \<Rightarrow> Replace),
              tRollback = createRollback s1 \<rparr>;
          s2 = s1\<lparr>chain := chain s1 @
                 [\<lparr> linkType = givenNavigationType, linkEntry = entry,
                    linkTransition = nextTransition, linkOptions = options,
                    linkStatus = Pending \<rparr>]\<rparr>;
          s3 = queueTransition nextTransition s2;
          s4 = (if givenNavigationType \<noteq> UpdateCurrent then abortInProgress s3 else s3)
      in (s4, \<lparr> committed = Resolved entry, finished = Chained link \<rparr>))"

definition pushEntry ::
  "InternalAppHistoryNavigationType \<Rightarrow> AppHistoryEntry \<Rightarrow> AppHistoryTransition option
     \<Rightarrow> InternalAppHistoryNavigateOptions option \<Rightarrow> AppHistory
     \<Rightarrow> error + (AppHistory \<times> AppHistoryResult)" where
  "pushEntry navigationType entry transition options s =
     (if Some entry = current s then Inl (InvalidStateError [])
      else if findIndex (\<lambda>existing. entryId existing = entryId entry) (entries s) > -1
        then Inl (InvalidStateError [])
      else Inr (commitTransition navigationType entry transition options s))"

section \<open>The public operations\<close>

definition withNavigationType ::
  "InternalAppHistoryNavigateOptions option \<Rightarrow> AppHistoryNavigationType
     \<Rightarrow> InternalAppHistoryNavigateOptions option" where
  "withNavigationType options t =
     Some (case options of
             Some opts \<Rightarrow> opts\<lparr>optNavigationType := Some t\<rparr>
           | None \<Rightarrow> \<lparr> optReplace = False, optState = None, optIndex = None, optKnown = None,
                       optEntries = None, optNavigationType = Some t \<rparr>)"

text \<open>\<^verbatim>\<open>back\<close> (the name is an Isar keyword, hence the suffix).\<close>

definition back_op ::
  "InternalAppHistoryNavigateOptions option \<Rightarrow> Fresh \<Rightarrow> AppHistory
     \<Rightarrow> error + (AppHistory \<times> AppHistoryResult)" where
  "back_op options fresh s =
     (if \<not> canGoBack s then Inl (InvalidStateError ''Cannot go back'')
      else let entry = nthOpt (entries s) (currentIndex s - 1)
           in pushEntry (NavString Traverse)
                (cloneAppHistoryEntry entry (withNavigationType options Traverse) fresh) None None s)"

definition forward ::
  "InternalAppHistoryNavigateOptions option \<Rightarrow> Fresh \<Rightarrow> AppHistory
     \<Rightarrow> error + (AppHistory \<times> AppHistoryResult)" where
  "forward options fresh s =
     (if \<not> canGoForward s then Inl (InvalidStateError [])
      else let entry = nthOpt (entries s) (currentIndex s + 1)
           in pushEntry (NavString Traverse)
                (cloneAppHistoryEntry entry (withNavigationType options Traverse) fresh) None None s)"

definition goTo ::
  "string \<Rightarrow> InternalAppHistoryNavigateOptions option \<Rightarrow> Fresh \<Rightarrow> AppHistory
     \<Rightarrow> error + (AppHistory \<times> AppHistoryResult)" where
  "goTo k options fresh s =
     (case List.find (\<lambda>entry. key entry = k) (entries s) of
        Some found \<Rightarrow>
          pushEntry (NavString Traverse)
            (cloneAppHistoryEntry (Some found) (withNavigationType options Traverse) fresh) None None s
      | None \<Rightarrow> Inl (InvalidStateError []))"

definition navigate ::
  "string \<Rightarrow> InternalAppHistoryNavigateOptions option \<Rightarrow> Fresh \<Rightarrow> AppHistory
     \<Rightarrow> error + (AppHistory \<times> AppHistoryResult)" where
  "navigate u options fresh s =
     (let navigationType =
            (if (case options of Some opts \<Rightarrow> optReplace opts | None \<Rightarrow> False) then Replace else Push);
          entry = createAppHistoryEntry u options navigationType fresh
      in pushEntry (NavString navigationType) entry None options s)"

definition reload ::
  "InternalAppHistoryNavigateOptions option \<Rightarrow> Fresh \<Rightarrow> AppHistory
     \<Rightarrow> error + (AppHistory \<times> AppHistoryResult)" where
  "reload options fresh s =
     (case current s of
        None \<Rightarrow> Inl (InvalidStateError [])
      | Some cur \<Rightarrow> pushEntry (NavString Reload) (cloneAppHistoryEntry (Some cur) options fresh) None options s)"

definition updateCurrent ::
  "InternalAppHistoryNavigateOptions option \<Rightarrow> Fresh \<Rightarrow> AppHistory
     \<Rightarrow> error + (AppHistory \<times> AppHistoryResult)" where
  "updateCurrent options fresh s =
     pushEntry UpdateCurrent (cloneAppHistoryEntry (current s) options fresh) None options s"

section \<open>Events, listeners and sub-operations\<close>

datatype event =
    Navigatefrom
  | Navigate
  | CurrentChange
  | Navigateto
  | Finish
  | Navigatesuccess
  | Navigateerror error
  | Dispose AppHistoryEntry

text \<open>\<^verbatim>\<open>entry.dispatchEvent(...)\<close> against \<^verbatim>\<open>this.dispatchEvent(...)\<close>.\<close>

datatype target = OnEntry AppHistoryEntry | OnNavigator

text \<open>What one run of \<^verbatim>\<open>#transition\<close> does, in order.\<close>

datatype action =
    Dispatched target event
  | Registered nat
  | Awaited nat
  | Mutated
  | RollbackImmediately

text \<open>
  What code outside the engine does while the engine awaits it: the listeners of one
  dispatched event, or one registered sub-operation (a promise, named by a number). It
  may call \<^verbatim>\<open>transitionWhile\<close> with further promises, a request other than
  \<^verbatim>\<open>updateCurrent\<close> may be accepted meanwhile (which aborts the in-progress controller),
  and it may throw or reject.
\<close>

record effect =
  registers :: "nat list"
  aborts :: bool
  throws :: "error option"

record AppHistoryTransitionResult =
  resKnown :: "AppHistoryEntry list"
  resEntries :: "AppHistoryEntry list"
  resIndex :: int

text \<open>
  The collaborators of one run. \<^verbatim>\<open>createAppHistoryTransition\<close> is not part of the
  sources: what its call does while awaited and the \<open>known\<close>, \<open>entries\<close> and \<open>index\<close> it
  resolves to are parameters.
\<close>

record environment =
  createAppHistoryTransition :: "effect \<times> AppHistoryTransitionResult"
  listeners :: "target \<Rightarrow> event \<Rightarrow> effect"
  subOperation :: "nat \<Rightarrow> effect"
  rollbackFresh :: Fresh

text \<open>
  The Navigator together with the local variables of one call of \<^verbatim>\<open>#transition\<close>
  (\<^verbatim>\<open>promises\<close>, \<^verbatim>\<open>abortController\<close>) and the actions so far.
\<close>

record run =
  nav :: AppHistory
  promises :: "nat list"
  abortController :: nat
  trace :: "action list"

type_synonym step = "run \<Rightarrow> error option \<times> run"

text \<open>Statements in sequence; a thrown error ends the sequence and keeps the state.\<close>

fun steps :: "step list \<Rightarrow> step" where
  "steps [] r = (None, r)"
| "steps (f # fs) r = (case f r of (Some e, r') \<Rightarrow> (Some e, r') | (None, r') \<Rightarrow> steps fs r')"

definition skip :: step where
  "skip r = (None, r)"

definition onlyIf :: "bool \<Rightarrow> step \<Rightarrow> step" where
  "onlyIf c f = (if c then f else skip)"

definition log :: "action \<Rightarrow> step" where
  "log a r = (None, r\<lparr>trace := trace r @ [a]\<rparr>)"

definition signalAborted :: "run \<Rightarrow> bool" where
  "signalAborted r = (abortController r \<in> abortedSignals (nav r))"

definition transitionWhile :: "nat \<Rightarrow> step" where
  "transitionWhile newNavigationAction r =
     (if signalAborted r
      then (Some (InvalidStateError ''Event has already finished processing''), r)
      else (None, r\<lparr>promises := promises r @ [newNavigationAction],
                     trace := trace r @ [Registered newNavigationAction]\<rparr>))"

definition acceptOtherRequest :: step where
  "acceptOtherRequest r = (None, r\<lparr>nav := abortInProgress (nav r)\<rparr>)"

definition throwIf :: "error option \<Rightarrow> step" where
  "throwIf e r = (e, r)"

definition applyEffect :: "bool \<Rightarrow> effect \<Rightarrow> step" where
  "applyEffect canRegister eff =
     steps ((if canRegister then map transitionWhile (registers eff) else [])
            @ [onlyIf (aborts eff) acceptOtherRequest, throwIf (throws eff)])"

text \<open>Which event objects carry \<^verbatim>\<open>transitionWhile\<close>.\<close>

definition carriesTransitionWhile :: "event \<Rightarrow> bool" where
  "carriesTransitionWhile ev =
     (case ev of Navigateerror e \<Rightarrow> False | Dispose k \<Rightarrow> False | _ \<Rightarrow> True)"

text \<open>
  Modelled from the spec: the event target (\<^verbatim>\<open>event-target\<close>) is not part of the sources.
  A dispatch delivers the event to the listeners of the target and fails when one of them
  does.
\<close>

definition dispatchEvent :: "environment \<Rightarrow> target \<Rightarrow> event \<Rightarrow> step" where
  "dispatchEvent env tgt ev =
     steps [log (Dispatched tgt ev), applyEffect (carriesTransitionWhile ev) (listeners env tgt ev)]"

text \<open>\<^verbatim>\<open>await Promise.all(capturedPromises)\<close>: rejects with the first rejection.\<close>

definition awaitPromise :: "environment \<Rightarrow> nat \<Rightarrow> step" where
  "awaitPromise env p = steps [applyEffect True (subOperation env p), log (Awaited p)]"

definition promiseAll :: "environment \<Rightarrow> nat list \<Rightarrow> step" where
  "promiseAll env ps = steps (map (awaitPromise env) ps)"

definition awaitCaptured :: "environment \<Rightarrow> step" where
  "awaitCaptured env r =
     (if promises r \<noteq> []
      then (let capturedPromises = promises r in promiseAll env capturedPromises (r\<lparr>promises := []\<rparr>))
      else (None, r))"

section \<open>The disposal sweep: \<^verbatim>\<open>#dispose\<close>\<close>

definition deleteKnown :: "AppHistoryEntry \<Rightarrow> step" where
  "deleteKnown k r = (None, r\<lparr>nav := (nav r)\<lparr>known := removeAll k (known (nav r))\<rparr>\<rparr>)"

fun disposeEach :: "environment \<Rightarrow> AppHistoryEntry list \<Rightarrow> step" where
  "disposeEach env [] r = (None, r)"
| "disposeEach env (k # ks) r =
     (if findIndex (\<lambda>entry. key entry = key k) (entries (nav r)) \<noteq> -1
      then disposeEach env ks r
      else (case steps [deleteKnown k,
                        dispatchEvent env (OnEntry k) (Dispose k),
                        dispatchEvent env OnNavigator (Dispose k)] r of
              (Some e, r') \<Rightarrow> (Some e, r')
            | (None, r') \<Rightarrow> disposeEach env ks r'))"

definition dispose :: "environment \<Rightarrow> step" where
  "dispose env r = disposeEach env (known (nav r)) r"

section \<open>Rolling back: the closure returned by \<^verbatim>\<open>#createRollback\<close>\<close>

text \<open>
  The body of the closure up to its call of \<^verbatim>\<open>fn\<close>: the navigation type, the entry and
  the options it hands over.
\<close>

definition rollbackArguments ::
  "RollbackSnapshot \<Rightarrow> InternalAppHistoryNavigateOptions option \<Rightarrow> Fresh
     \<Rightarrow> InternalAppHistoryNavigationType \<times> AppHistoryEntry \<times> InternalAppHistoryNavigateOptions" where
  "rollbackArguments snap options fresh =
     (let entry = (case snapCurrent snap of
                     Some cur \<Rightarrow> Some (cloneAppHistoryEntry (Some cur) options fresh)
                   | None \<Rightarrow> None);
          nextOptions =
            \<lparr> optReplace = (case options of Some opts \<Rightarrow> optReplace opts | None \<Rightarrow> False),
              optState = (case options of Some opts \<Rightarrow> optState opts | None \<Rightarrow> None),
              optIndex = Some (previousIndex snap),
              optKnown = Some (snapKnown snap),
              optEntries = Some (previousEntries snap),
              optNavigationType =
                Some (case entry of Some e \<Rightarrow> entryNavigationType e | None \<Rightarrow> Replace) \<rparr>;
          resolvedNavigationType = (case entry of Some e \<Rightarrow> Rollback | None \<Rightarrow> Unset);
          resolvedEntry =
            (case entry of
               Some e \<Rightarrow> e
             | None \<Rightarrow>
                 \<lparr> entryId = freshId fresh, key = freshKey fresh, url = None, sameDocument = True,
                   entryState = (case options of Some opts \<Rightarrow> optState opts | None \<Rightarrow> None),
                   entryNavigationType = Replace \<rparr>)
      in (resolvedNavigationType, resolvedEntry, nextOptions))"

text \<open>
  The closure of \<^verbatim>\<open>this.#createRollback(this.#pushEntry)\<close>, the \<^verbatim>\<open>rollback\<close> of every
  transition object: \<^verbatim>\<open>fn\<close> is \<^verbatim>\<open>#pushEntry\<close> and \<^verbatim>\<open>transition\<close> is \<^verbatim>\<open>undefined\<close>.
\<close>

definition rollbackViaPushEntry ::
  "RollbackSnapshot \<Rightarrow> InternalAppHistoryNavigateOptions option \<Rightarrow> Fresh \<Rightarrow> AppHistory
     \<Rightarrow> error + (AppHistory \<times> AppHistoryResult)" where
  "rollbackViaPushEntry snap options fresh s =
     (case rollbackArguments snap options fresh of
        (resolvedNavigationType, resolvedEntry, nextOptions) \<Rightarrow>
          pushEntry resolvedNavigationType resolvedEntry None (Some nextOptions) s)"

section \<open>One transition: \<^verbatim>\<open>#transition\<close>\<close>

definition checkAborted :: step where
  "checkAborted r = (if signalAborted r then (Some (InvalidStateError ''Aborted''), r) else (None, r))"

definition setActiveTransition :: "AppHistoryTransition \<Rightarrow> step" where
  "setActiveTransition t r = (None, r\<lparr>nav := (nav r)\<lparr>activeTransition := Some t\<rparr>\<rparr>)"

definition clearActiveTransition :: "AppHistoryTransition \<Rightarrow> step" where
  "clearActiveTransition t r =
     (None, if activeTransition (nav r) = Some t
            then r\<lparr>nav := (nav r)\<lparr>activeTransition := None\<rparr>\<rparr> else r)"

text \<open>The three assignments that commit the result to the Navigator.\<close>

definition mutate :: "AppHistoryTransitionResult \<Rightarrow> step" where
  "mutate res r =
     (None, r\<lparr>nav := (nav r)\<lparr>known := newSet (known (nav r) @ resKnown res),
                              entries := resEntries res,
                              currentIndex := resIndex res\<rparr>,
               trace := trace r @ [Mutated]\<rparr>)"

text \<open>The first branch of \<^verbatim>\<open>completeTransition\<close>: the snapshot of a rollback put back.\<close>

definition restoreSnapshot :: "InternalAppHistoryNavigateOptions \<Rightarrow> run \<Rightarrow> run" where
  "restoreSnapshot opts r =
     r\<lparr>nav := (nav r)\<lparr>entries := the (optEntries opts),
                       currentIndex := the (optIndex opts),
                       known := (case optKnown opts of
                                   Some k \<Rightarrow> newSet (known (nav r) @ k)
                                 | None \<Rightarrow> known (nav r))\<rparr>\<rparr>"

definition isRestore ::
  "InternalAppHistoryNavigationType \<Rightarrow> InternalAppHistoryNavigateOptions option \<Rightarrow> bool" where
  "isRestore givenNavigationType options =
     (givenNavigationType = Unset \<and>
      (case options of Some opts \<Rightarrow> optIndex opts \<noteq> None \<and> optEntries opts \<noteq> None | None \<Rightarrow> False))"

definition protocol ::
  "InternalAppHistoryNavigationType \<Rightarrow> AppHistoryEntry \<Rightarrow> AppHistoryEntry option
     \<Rightarrow> AppHistoryTransition \<Rightarrow> environment \<Rightarrow> step list" where
  "protocol navigationType entry cur currentTransition env =
     [ applyEffect True (fst (createAppHistoryTransition env)),
       checkAborted,
       onlyIf (isString navigationType) (setActiveTransition currentTransition),
       onlyIf (isString navigationType \<or> navigationType = Rollback)
         (case cur of Some c \<Rightarrow> dispatchEvent env (OnEntry c) Navigatefrom | None \<Rightarrow> skip),
       onlyIf (isString navigationType) (dispatchEvent env OnNavigator Navigate),
       checkAborted,
       mutate (snd (createAppHistoryTransition env)),
       onlyIf (sameDocument entry) (dispatchEvent env OnNavigator CurrentChange),
       onlyIf (isString navigationType) (dispatchEvent env (OnEntry entry) Navigateto),
       dispose env,
       awaitCaptured env,
       onlyIf (isString navigationType) (dispatchEvent env (OnEntry entry) Finish),
       onlyIf (isString navigationType) (dispatchEvent env OnNavigator Navigatesuccess),
       awaitCaptured env ]"

definition completeTransition ::
  "InternalAppHistoryNavigationType \<Rightarrow> AppHistoryEntry \<Rightarrow> InternalAppHistoryNavigateOptions option
     \<Rightarrow> AppHistoryEntry option \<Rightarrow> AppHistoryTransition \<Rightarrow> environment \<Rightarrow> step" where
  "completeTransition givenNavigationType entry options cur currentTransition env r =
     (if isRestore givenNavigationType options
      then (None, restoreSnapshot (the options) r)
      else steps (protocol givenNavigationType entry cur currentTransition env) r)"

text \<open>
  The \<^verbatim>\<open>catch\<close> block: it always throws again, the caught error or the one a listener of
  \<^verbatim>\<open>navigateerror\<close> threw. \<open>rollbackImmediately\<close> is the call of the closure.
\<close>

definition catchBlock ::
  "InternalAppHistoryNavigationType \<Rightarrow> error \<Rightarrow> step \<Rightarrow> environment \<Rightarrow> run \<Rightarrow> error \<times> run" where
  "catchBlock navigationType err rollbackImmediately env r =
     (if \<not> isInvalidStateError err \<and> (isString navigationType \<or> navigationType = Rollback)
      then (case steps [onlyIf (navigationType \<noteq> Rollback) rollbackImmediately,
                        dispatchEvent env OnNavigator (Navigateerror err)] r of
              (Some e, r') \<Rightarrow> (e, r')
            | (None, r') \<Rightarrow> (err, r'))
      else (err, r))"

definition finallyBlock :: "AppHistoryTransition \<Rightarrow> environment \<Rightarrow> step" where
  "finallyBlock currentTransition env =
     steps [dispose env, clearActiveTransition currentTransition]"

text \<open>\<^verbatim>\<open>try { return await completeTransition() } catch ... finally ...\<close>\<close>

definition tryCatchFinally ::
  "InternalAppHistoryNavigationType \<Rightarrow> AppHistoryEntry \<Rightarrow> InternalAppHistoryNavigateOptions option
     \<Rightarrow> AppHistoryEntry option \<Rightarrow> AppHistoryTransition \<Rightarrow> step \<Rightarrow> environment \<Rightarrow> step" where
  "tryCatchFinally givenNavigationType entry options cur currentTransition rollbackImmediately env r =
     (case completeTransition givenNavigationType entry options cur currentTransition env r of
        (None, r1) \<Rightarrow> finallyBlock currentTransition env r1
      | (Some err, r1) \<Rightarrow>
          (case catchBlock givenNavigationType err rollbackImmediately env r1 of
             (thrown, r2) \<Rightarrow>
               (case finallyBlock currentTransition env r2 of
                  (None, r3) \<Rightarrow> (Some thrown, r3)
                | (Some e, r3) \<Rightarrow> (Some e, r3))))"

definition newAbortController :: "AppHistory \<Rightarrow> run" where
  "newAbortController s =
     \<lparr> nav = s\<lparr>inProgressAbortController := Some (controllers s), controllers := Suc (controllers s)\<rparr>,
       promises = [], abortController = controllers s, trace = [] \<rparr>"

text \<open>
  \<^verbatim>\<open>#transition\<close>. The only call of itself is the one inside \<open>rollbackImmediately\<close>, the
  closure of \<^verbatim>\<open>this.#createRollback(this.#transition)\<close>, which hands over the
  \<^verbatim>\<open>transition\<close> parameter of \<^verbatim>\<open>#createRollback\<close>: \<^verbatim>\<open>undefined\<close>. The promise of that call
  is not awaited (the closure returns an object that has no \<^verbatim>\<open>then\<close>), and its rejection
  is caught and dropped.
\<close>

function transition ::
  "InternalAppHistoryNavigationType \<Rightarrow> AppHistoryEntry \<Rightarrow> AppHistoryTransition option
     \<Rightarrow> InternalAppHistoryNavigateOptions option \<Rightarrow> environment \<Rightarrow> AppHistory
     \<Rightarrow> (error + AppHistoryEntry) \<times> AppHistory \<times> action list" where
  "transition givenNavigationType entry None options env s =
     (Inl (InvalidStateError ''Expected transition''), s, [])"
| "transition givenNavigationType entry (Some t) options env s =
     (let cur = current s;
          r0 = newAbortController s;
          snap = createRollback (nav r0);
          rollbackImmediately =
            (\<lambda>r. case rollbackArguments snap None (rollbackFresh env) of
                   (resolvedNavigationType, resolvedEntry, nextOptions) \<Rightarrow>
                     (case transition resolvedNavigationType resolvedEntry None (Some nextOptions)
                             env (nav r) of
                        (result, s', acts) \<Rightarrow>
                          (None, r\<lparr>nav := s', trace := trace r @ [RollbackImmediately] @ acts\<rparr>)));
          currentTransition = t\<lparr>tRollback := createRollback (nav r0)\<rparr>
      in (case tryCatchFinally givenNavigationType entry options cur currentTransition
                 rollbackImmediately env r0 of
            (None, r') \<Rightarrow> (Inr entry, nav r', trace r')
          | (Some e, r') \<Rightarrow> (Inl e, nav r', trace r')))"
  by pat_completeness auto
termination
  by (relation "measure (\<lambda>(ty, e, t, opts, env, s). case t of None \<Rightarrow> 0 | Some x \<Rightarrow> 1)") auto

text \<open>\<^verbatim>\<open>#immediateTransition\<close>: the counter around one transition.\<close>

definition immediateTransition ::
  "InternalAppHistoryNavigationType \<Rightarrow> AppHistoryEntry \<Rightarrow> AppHistoryTransition
     \<Rightarrow> InternalAppHistoryNavigateOptions option \<Rightarrow> environment \<Rightarrow> AppHistory
     \<Rightarrow> (error + AppHistoryEntry) \<times> AppHistory \<times> action list" where
  "immediateTransition givenNavigationType entry t options env s =
     (let s1 = s\<lparr>transitionInProgressCount := transitionInProgressCount s + 1\<rparr>
      in if transitionInProgressCount s1 > 1
         then (Inl (InvalidStateError ''Unexpected multiple transitions''),
               s1\<lparr>transitionInProgressCount := transitionInProgressCount s1 - 1\<rparr>, [])
         else (case transition givenNavigationType entry (Some t) options env s1 of
                 (result, s2, acts) \<Rightarrow>
                   (result, s2\<lparr>transitionInProgressCount := transitionInProgressCount s2 - 1\<rparr>, acts)))"

section \<open>The promise chain as a transition system\<close>

text \<open>
  \<^verbatim>\<open>#commitTransition\<close> chains every accepted request onto \<^verbatim>\<open>#activePromise\<close>, the
  promise of the request accepted before it, with the rejection of that promise caught:
  the \<^verbatim>\<open>then\<close> callback of a link, which calls \<^verbatim>\<open>#immediateTransition\<close>, runs once
  the link before it has settled. The steps of an execution:
  \<^item> \<open>accept\<close>: a public operation, or the rollback of a transition, gets through
    \<^verbatim>\<open>#pushEntry\<close>;
  \<^item> \<open>enter\<close>: the callback of a pending link starts and \<^verbatim>\<open>#immediateTransition\<close>
    adds one to the counter;
  \<^item> \<open>multiple\<close>: the counter is found above 1, the error is thrown and the
    \<^verbatim>\<open>finally\<close> block takes one off again;
  \<^item> \<open>work\<close>: the running \<^verbatim>\<open>#transition\<close> (or its caller's listeners) changes fields
    other than the counter and the chain;
  \<^item> \<open>leave\<close>: \<^verbatim>\<open>#transition\<close> settles and the \<^verbatim>\<open>finally\<close> block takes one off
    the counter.
  The steps are finer than the turns of the event loop, so every execution of the source
  is an execution here.
\<close>

definition isSettled :: "linkStatus \<Rightarrow> bool" where
  "isSettled st = (st = Settled \<or> st = FailedMultiple)"

definition setStatus :: "nat \<Rightarrow> linkStatus \<Rightarrow> ChainLink list \<Rightarrow> ChainLink list" where
  "setStatus k st links = links[k := (links ! k)\<lparr>linkStatus := st\<rparr>]"

inductive execution :: "AppHistory \<Rightarrow> AppHistory \<Rightarrow> bool" where
  accept:
    "pushEntry navigationType entry t options s = Inr (s', result) \<Longrightarrow> execution s s'"
| enter:
    "k < length (chain s) \<Longrightarrow> linkStatus (chain s ! k) = Pending \<Longrightarrow>
     k = 0 \<or> isSettled (linkStatus (chain s ! (k - 1))) \<Longrightarrow>
     execution s (s\<lparr>transitionInProgressCount := transitionInProgressCount s + 1,
                    chain := setStatus k Running (chain s)\<rparr>)"
| multiple:
    "k < length (chain s) \<Longrightarrow> linkStatus (chain s ! k) = Running \<Longrightarrow>
     transitionInProgressCount s > 1 \<Longrightarrow>
     execution s (s\<lparr>transitionInProgressCount := transitionInProgressCount s - 1,
                    chain := setStatus k FailedMultiple (chain s)\<rparr>)"
| work:
    "transitionInProgressCount s' = transitionInProgressCount s \<Longrightarrow> chain s' = chain s \<Longrightarrow>
     execution s s'"
| leave:
    "k < length (chain s) \<Longrightarrow> linkStatus (chain s ! k) = Running \<Longrightarrow>
     execution s (s\<lparr>transitionInProgressCount := transitionInProgressCount s - 1,
                    chain := setStatus k Settled (chain s)\<rparr>)"

inductive reachable :: "AppHistory \<Rightarrow> bool" where
  initial: "reachable initialAppHistory"
| after: "reachable s \<Longrightarrow> execution s s' \<Longrightarrow> reachable s'"

section \<open>Arrays as objects: \<^verbatim>\<open>entries()\<close>\<close>

text \<open>
  For the one operation that hands an array to the caller, arrays live in a store: a
  reference names an array, \<^verbatim>\<open>#entries\<close> is a reference, and the caller may write through
  any reference it holds.
\<close>

record AppHistoryStore =
  arrays :: "nat \<Rightarrow> AppHistoryEntry list option"
  nextReference :: nat
  entriesReference :: nat
  storedCurrentIndex :: int
  storedKnown :: "AppHistoryEntry list"

text \<open>\<^verbatim>\<open>return [...this.#entries]\<close>: a new array with the elements of \<^verbatim>\<open>#entries\<close>.\<close>

definition entries_method :: "AppHistoryStore \<Rightarrow> nat \<times> AppHistoryStore" where
  "entries_method h =
     (nextReference h,
      h\<lparr>arrays := (arrays h)(nextReference h := arrays h (entriesReference h)),
        nextReference := Suc (nextReference h)\<rparr>)"

text \<open>Any write of the caller through a reference: push, pop, splice, an index assignment.\<close>

definition writeArray ::
  "nat \<Rightarrow> (AppHistoryEntry list \<Rightarrow> AppHistoryEntry list) \<Rightarrow> AppHistoryStore \<Rightarrow> AppHistoryStore" where
  "writeArray ref f h = h\<lparr>arrays := (arrays h)(ref := map_option f (arrays h ref))\<rparr>"

text \<open>What the Navigator sees of a store.\<close>

definition observed :: "AppHistoryStore \<Rightarrow> AppHistoryEntry list option \<times> int \<times> AppHistoryEntry list" where
  "observed h = (arrays h (entriesReference h), storedCurrentIndex h, storedKnown h)"

text \<open>
  The closure \<open>rollbackImmediately\<close> of \<^verbatim>\<open>#transition\<close>, by name: the step the
  \<^verbatim>\<open>catch\<close> block runs.
\<close>

definition rollbackImmediately :: "environment \<Rightarrow> RollbackSnapshot \<Rightarrow> step" where
  "rollbackImmediately env snap r =
     (case rollbackArguments snap None (rollbackFresh env) of
        (resolvedNavigationType, resolvedEntry, nextOptions) \<Rightarrow>
          (case transition resolvedNavigationType resolvedEntry None (Some nextOptions)
                  env (nav r) of
             (result, s', acts) \<Rightarrow>
               (None, r\<lparr>nav := s', trace := trace r @ [RollbackImmediately] @ acts\<rparr>)))"

text \<open>The promise of a chain link settles with the result of its callback.\<close>

definition linkCallback ::
  "nat \<Rightarrow> environment \<Rightarrow> AppHistory \<Rightarrow> (error + AppHistoryEntry) \<times> AppHistory \<times> action list" where
  "linkCallback k env s =
     (let link = chain s ! k
      in immediateTransition (linkType link) (linkEntry link) (linkTransition link)
           (linkOptions link) env s)"

section \<open>The transition object: \<^verbatim>\<open>NavigationTransition\<close>\<close>

text \<open>
  Modelled from the spec: \<^verbatim>\<open>deferred\<close> (\<^verbatim>\<open>util/deferred\<close>) is not part of the sources. A
  deferred settles once; resolving or rejecting it again does nothing.
\<close>

datatype deferred = DeferredPending | DeferredResolved | DeferredRejected error


definition rejectDeferred :: "error \<Rightarrow> deferred \<Rightarrow> deferred" where
  "rejectDeferred e d = (case d of DeferredPending \<Rightarrow> DeferredRejected e | _ \<Rightarrow> d)"

text \<open>
  The fields of class \<^verbatim>\<open>NavigationTransition\<close> that its methods read and write.
  \<open>ntPromises\<close> is the set \<^verbatim>\<open>#promises\<close> in insertion order: every registration adds a
  status promise of its own, named here by the number of the promise it wraps.
\<close>

record NavigationTransition =
  ntNavigationType :: InternalAppHistoryNavigationType
  isCommitted :: bool
  isFinished :: bool
  isRejected :: bool
  isOngoing :: bool
  ntPromises :: "nat list"
  rolledBack :: bool
  ntSignalAborted :: bool
  finishedDeferred :: deferred
  committedDeferred :: deferred

datatype ntEvent = NtNavigateerror error | NtAbort | NtFinish

datatype ntAction =
    NtDispatched ntEvent
  | NtRegistered nat
  | NtAwaited nat
  | NtRollback

text \<open>
  The collaborators of a transition object: the listeners of the entry and of the parent
  event target, to which the constructor forwards every event (what they register through
  the \<^verbatim>\<open>transitionWhile\<close> of a finish event, and whether they throw); the
  \<^verbatim>\<open>rollback\<close> of the init object, awaited to its \<^verbatim>\<open>finished\<close>; and the registered
  promises (what each registers through \<^verbatim>\<open>NavigationTransitionWhile\<close> while it is awaited,
  and whether it rejects).
\<close>

record ntEnvironment =
  ntListeners :: "ntEvent \<Rightarrow> nat list \<times> error option"
  ntRollback :: "error option"
  ntSubOperation :: "nat \<Rightarrow> nat list \<times> error option"

type_synonym ntOutcome = "error option \<times> NavigationTransition \<times> ntAction list"

definition NavigationTransitionWhile :: "nat \<Rightarrow> NavigationTransition \<Rightarrow> NavigationTransition" where
  "NavigationTransitionWhile p t = t\<lparr>isOngoing := True, ntPromises := ntPromises t @ [p]\<rparr>"

text \<open>The two errors the methods of the class create.\<close>

definition rollbackInvokedTwice :: error where
  "rollbackInvokedTwice = InvalidStateError ''Rollback invoked multiple times: Please raise an issue at https://github.com/virtualstate/app-history with the use case where you want to use a rollback multiple times, this may have been unexpected behaviour''"

definition failedToRollback :: error where
  "failedToRollback = InvalidStateError ''Failed to rollback, please raise an issue at https://github.com/virtualstate/app-history/issues''"

text \<open>The method \<^verbatim>\<open>rollback\<close>.\<close>

definition rollbackMethod :: "ntEnvironment \<Rightarrow> NavigationTransition \<Rightarrow> ntOutcome" where
  "rollbackMethod env t =
     (if rolledBack t
      then (Some rollbackInvokedTwice, t, [])
      else (ntRollback env, t\<lparr>rolledBack := True\<rparr>, [NtRollback]))"

definition rejectBoth :: "error \<Rightarrow> NavigationTransition \<Rightarrow> NavigationTransition" where
  "rejectBoth reason t =
     t\<lparr>committedDeferred := rejectDeferred reason (committedDeferred t),
       finishedDeferred := rejectDeferred reason (finishedDeferred t)\<rparr>"

text \<open>
  \<^verbatim>\<open>NavigationTransitionRejected\<close> after its call of \<^verbatim>\<open>NavigationTransitionAbort\<close>.
\<close>

definition afterAbort :: "ntEnvironment \<Rightarrow> error \<Rightarrow> NavigationTransition \<Rightarrow> ntOutcome" where
  "afterAbort env reason t =
     (let navigationType = ntNavigationType t
      in if isString navigationType \<or> navigationType = Rollback
         then (case snd (ntListeners env (NtNavigateerror reason)) of
                 Some e \<Rightarrow> (Some e, t, [NtDispatched (NtNavigateerror reason)])
               | None \<Rightarrow>
                   if navigationType \<noteq> Rollback \<and> \<not> (isInvalidStateError reason \<or> isAbortError reason)
                   then (case rollbackMethod env t of
                           (Some e, t', acts) \<Rightarrow>
                             (Some failedToRollback, t', NtDispatched (NtNavigateerror reason) # acts)
                         | (None, t', acts) \<Rightarrow>
                             (None, rejectBoth reason t', NtDispatched (NtNavigateerror reason) # acts))
                   else (None, rejectBoth reason t, [NtDispatched (NtNavigateerror reason)]))
         else (None, rejectBoth reason t, []))"

text \<open>
  \<^verbatim>\<open>NavigationTransitionRejected\<close> and \<^verbatim>\<open>NavigationTransitionAbort\<close>. The abort event
  reaches the listener the constructor added, which calls
  \<^verbatim>\<open>NavigationTransitionRejected\<close> with an \<^verbatim>\<open>AbortError\<close> unless the transition has
  finished; the call made by that listener is modelled as run to its end at once.
\<close>

function NavigationTransitionRejected :: "ntEnvironment \<Rightarrow> error \<Rightarrow> NavigationTransition \<Rightarrow> ntOutcome"
  and NavigationTransitionAbort :: "ntEnvironment \<Rightarrow> NavigationTransition \<Rightarrow> NavigationTransition \<times> ntAction list"
where
  "NavigationTransitionRejected env reason t =
     (if isRejected t then (None, t, [])
      else (case NavigationTransitionAbort env (t\<lparr>isRejected := True\<rparr>) of
              (t1, acts1) \<Rightarrow>
                (case afterAbort env reason t1 of
                   (thrown, t2, acts2) \<Rightarrow> (thrown, t2, acts1 @ acts2))))"
| "NavigationTransitionAbort env t =
     (if ntSignalAborted t then (t, [])
      else if \<not> isFinished t
        then (case NavigationTransitionRejected env AbortError (t\<lparr>ntSignalAborted := True\<rparr>) of
                (thrown, t1, acts) \<Rightarrow> (t1, NtDispatched NtAbort # acts))
        else (t\<lparr>ntSignalAborted := True\<rparr>, [NtDispatched NtAbort]))"
  by pat_completeness auto
termination
  by (relation "measure (\<lambda>x. case x of
         Inl (env, reason, t) \<Rightarrow> (if isRejected t then 0 else 1) + (if ntSignalAborted t then 0 else 1)
       | Inr (env, t) \<Rightarrow> (if isRejected t then 0 else 1) + (if ntSignalAborted t then 0 else 1))")
     auto







section \<open>The invariant of the promise chain\<close>

text \<open>
  A link that has started has only settled links before it, the counter is 1 while a link
  runs and 0 otherwise, and no link has failed on the counter.
\<close>

definition chainInvariant :: "AppHistory \<Rightarrow> bool" where
  "chainInvariant s =
     ((\<forall>i j. i < j \<and> j < length (chain s) \<and> linkStatus (chain s ! j) \<noteq> Pending
          \<longrightarrow> linkStatus (chain s ! i) = Settled)
      \<and> transitionInProgressCount s =
          (if \<exists>k < length (chain s). linkStatus (chain s ! k) = Running then 1 else 0)
      \<and> (\<forall>k < length (chain s). linkStatus (chain s ! k) \<noteq> FailedMultiple))"

section \<open>Notions for the properties of a run\<close>

text \<open>What a step leaves alone: the part of the Navigator a disposal looks at.\<close>

definition sameHistory :: "run \<Rightarrow> run \<Rightarrow> bool" where
  "sameHistory r r' =
     (entries (nav r') = entries (nav r) \<and> known (nav r') = known (nav r)
      \<and> currentIndex (nav r') = currentIndex (nav r))"


definition unreachable :: "AppHistoryEntry list \<Rightarrow> AppHistoryEntry \<Rightarrow> bool" where
  "unreachable es k = (\<not> (\<exists>e \<in> set es. key e = key k))"

definition isDisposal :: "action \<Rightarrow> bool" where
  "isDisposal a = (case a of Dispatched tgt (Dispose k) \<Rightarrow> True | _ \<Rightarrow> False)"

text \<open>
  A step that neither changes the history nor notifies of a disposal, and a step that
  keeps the entries and notifies of disposals of unreachable entries only.
\<close>

definition quietStep :: "run \<Rightarrow> run \<Rightarrow> bool" where
  "quietStep r r' =
     (sameHistory r r' \<and>
      (\<exists>ext. trace r' = trace r @ ext \<and> (\<forall>a \<in> set ext. \<not> isDisposal a \<and> a \<noteq> Mutated)))"

definition sweepStep :: "run \<Rightarrow> run \<Rightarrow> bool" where
  "sweepStep r r' =
     (entries (nav r') = entries (nav r) \<and> currentIndex (nav r') = currentIndex (nav r) \<and>
      (\<exists>ext. trace r' = trace r @ ext \<and>
         (\<forall>a \<in> set ext. a \<noteq> Mutated \<and>
            (\<forall>tgt k. a = Dispatched tgt (Dispose k) \<longrightarrow> unreachable (entries (nav r)) k))))"


text \<open>The steps of the protocol before and after the three assignments.\<close>

definition protocolBefore ::
  "InternalAppHistoryNavigationType \<Rightarrow> AppHistoryEntry option \<Rightarrow> AppHistoryTransition
     \<Rightarrow> environment \<Rightarrow> step list" where
  "protocolBefore navigationType cur currentTransition env =
     [ applyEffect True (fst (createAppHistoryTransition env)),
       checkAborted,
       onlyIf (isString navigationType) (setActiveTransition currentTransition),
       onlyIf (isString navigationType \<or> navigationType = Rollback)
         (case cur of Some c \<Rightarrow> dispatchEvent env (OnEntry c) Navigatefrom | None \<Rightarrow> skip),
       onlyIf (isString navigationType) (dispatchEvent env OnNavigator Navigate),
       checkAborted ]"

definition protocolAfter ::
  "InternalAppHistoryNavigationType \<Rightarrow> AppHistoryEntry \<Rightarrow> environment \<Rightarrow> step list" where
  "protocolAfter navigationType entry env =
     [ onlyIf (sameDocument entry) (dispatchEvent env OnNavigator CurrentChange),
       onlyIf (isString navigationType) (dispatchEvent env (OnEntry entry) Navigateto),
       dispose env,
       awaitCaptured env,
       onlyIf (isString navigationType) (dispatchEvent env (OnEntry entry) Finish),
       onlyIf (isString navigationType) (dispatchEvent env OnNavigator Navigatesuccess),
       awaitCaptured env ]"


text \<open>
  A relation between the states of a run that every primitive step of \<^verbatim>\<open>#transition\<close>
  stays within.
\<close>

definition stepRelation :: "(run \<Rightarrow> run \<Rightarrow> bool) \<Rightarrow> bool" where
  "stepRelation Q =
     ((\<forall>r. Q r r) \<and> (\<forall>a b c. Q a b \<longrightarrow> Q b c \<longrightarrow> Q a c)
      \<and> (\<forall>p r. Q r (snd (transitionWhile p r)))
      \<and> (\<forall>r. Q r (snd (acceptOtherRequest r)))
      \<and> (\<forall>a r. Q r (snd (log a r)))
      \<and> (\<forall>t r. Q r (snd (setActiveTransition t r)))
      \<and> (\<forall>t r. Q r (snd (clearActiveTransition t r)))
      \<and> (\<forall>m r. Q r (snd (mutate m r)))
      \<and> (\<forall>k r. Q r (snd (deleteKnown k r)))
      \<and> (\<forall>opts r. Q r (restoreSnapshot opts r))
      \<and> (\<forall>r. Q r (r\<lparr>promises := []\<rparr>)))"

text \<open>The signal of the run's abort controller stays aborted.\<close>

definition keepsSignal :: "run \<Rightarrow> run \<Rightarrow> bool" where
  "keepsSignal r r' =
     (abortController r' = abortController r
      \<and> inProgressAbortController (nav r') = inProgressAbortController (nav r)
      \<and> abortedSignals (nav r) \<subseteq> abortedSignals (nav r'))"

text \<open>The counter and the chain are not touched.\<close>

definition keepsChain :: "run \<Rightarrow> run \<Rightarrow> bool" where
  "keepsChain r r' =
     (transitionInProgressCount (nav r') = transitionInProgressCount (nav r)
      \<and> chain (nav r') = chain (nav r))"

text \<open>
  Every sub-operation registered so far is still to be awaited (in \<open>promises\<close>, or among
  the captured ones \<open>X\<close>), or has been awaited.
\<close>

definition pendingOrAwaited :: "nat set \<Rightarrow> run \<Rightarrow> bool" where
  "pendingOrAwaited X r =
     (\<forall>p. Registered p \<in> set (trace r) \<longrightarrow>
          p \<in> set (promises r) \<or> Awaited p \<in> set (trace r) \<or> p \<in> X)"


section \<open>A small history, for the examples\<close>

definition exampleFreshA :: Fresh where
  "exampleFreshA = \<lparr> freshId = ''a'', freshKey = ''ka'', freshSameDocument = True \<rparr>"

definition exampleEntryA :: AppHistoryEntry where
  "exampleEntryA = createAppHistoryEntry ''/a'' None Push exampleFreshA"

definition exampleAccepted :: AppHistory where
  "exampleAccepted = fst (commitTransition (NavString Push) exampleEntryA None None initialAppHistory)"

definition exampleEntered :: AppHistory where
  "exampleEntered =
     exampleAccepted\<lparr>transitionInProgressCount := transitionInProgressCount exampleAccepted + 1,
                     chain := setStatus 0 Running (chain exampleAccepted)\<rparr>"

definition exampleFreshB :: Fresh where
  "exampleFreshB = \<lparr> freshId = ''b'', freshKey = ''kb'', freshSameDocument = True \<rparr>"

definition exampleFreshC :: Fresh where
  "exampleFreshC = \<lparr> freshId = ''c'', freshKey = ''kc'', freshSameDocument = True \<rparr>"

definition exampleEntryB :: AppHistoryEntry where
  "exampleEntryB = createAppHistoryEntry ''/b'' None Push exampleFreshB"

definition exampleEntryC :: AppHistoryEntry where
  "exampleEntryC = createAppHistoryEntry ''/c'' None Push exampleFreshC"

text \<open>The history after \<^verbatim>\<open>navigate("/a")\<close> and \<^verbatim>\<open>navigate("/b")\<close> have finished.\<close>

definition exampleTwo :: AppHistory where
  "exampleTwo =
     initialAppHistory\<lparr>entries := [exampleEntryA, exampleEntryB],
                        known := [exampleEntryA, exampleEntryB],
                        currentIndex := 1\<rparr>"

definition exampleStore :: AppHistoryStore where
  "exampleStore =
     \<lparr> arrays = (\<lambda>ref. if ref = 0 then Some [exampleEntryA, exampleEntryB] else None),
       nextReference = 1, entriesReference = 0, storedCurrentIndex = 1,
       storedKnown = [exampleEntryA, exampleEntryB] \<rparr>"

definition exampleNavigationTransition :: NavigationTransition where
  "exampleNavigationTransition =
     \<lparr> ntNavigationType = NavString Push, isCommitted = True, isFinished = False,
       isRejected = False, isOngoing = True, ntPromises = [1], rolledBack = False,
       ntSignalAborted = False, finishedDeferred = DeferredPending,
       committedDeferred = DeferredResolved \<rparr>"

definition nestedEnvironment :: ntEnvironment where
  "nestedEnvironment =
     \<lparr> ntListeners = (\<lambda>ev. ([], None)), ntRollback = None,
       ntSubOperation = (\<lambda>p. (if p = 1 then [2] else [], None)) \<rparr>"

definition noEffect :: effect where
  "noEffect = \<lparr> registers = [], aborts = False, throws = None \<rparr>"

definition exampleResultA :: AppHistoryTransitionResult where
  "exampleResultA = \<lparr> resKnown = [exampleEntryA], resEntries = [exampleEntryA], resIndex = 0 \<rparr>"

definition exampleTransitionA :: AppHistoryTransition where
  "exampleTransitionA = linkTransition (chain exampleAccepted ! 0)"

text \<open>A listener of \<^verbatim>\<open>navigateto\<close> throws.\<close>

definition failingEnvironment :: environment where
  "failingEnvironment =
     \<lparr> createAppHistoryTransition = (noEffect, exampleResultA),
       listeners = (\<lambda>tgt ev. if ev = Navigateto
                                 then noEffect\<lparr>throws := Some (ApplicationError ''boom'')\<rparr>
                                 else noEffect),
       subOperation = (\<lambda>p. noEffect),
       rollbackFresh = exampleFreshB \<rparr>"

text \<open>Nothing throws, nothing is registered.\<close>

definition quietEnvironment :: environment where
  "quietEnvironment =
     \<lparr> createAppHistoryTransition = (noEffect, exampleResultA),
       listeners = (\<lambda>tgt ev. noEffect),
       subOperation = (\<lambda>p. noEffect),
       rollbackFresh = exampleFreshB \<rparr>"


text \<open>
  A listener of \<^verbatim>\<open>navigate\<close> registers promise 1, which registers promise 2 while it is
  awaited, which registers promise 3 while it is awaited.
\<close>

definition nestingEnvironment :: environment where
  "nestingEnvironment =
     \<lparr> createAppHistoryTransition = (noEffect, exampleResultA),
       listeners = (\<lambda>tgt ev. if ev = Navigate then noEffect\<lparr>registers := [1]\<rparr> else noEffect),
       subOperation = (\<lambda>p. if p = 1 then noEffect\<lparr>registers := [2]\<rparr>
                             else if p = 2 then noEffect\<lparr>registers := [3]\<rparr> else noEffect),
       rollbackFresh = exampleFreshB \<rparr>"

text \<open>The transition object after a sub-operation of it was rejected.\<close>

definition exampleRejectedTransition :: NavigationTransition where
  "exampleRejectedTransition =
     fst (snd (NavigationTransitionRejected nestedEnvironment (ApplicationError ''x'')
                 exampleNavigationTransition))"


text \<open>A run during which a request other than \<^verbatim>\<open>updateCurrent\<close> has been accepted.\<close>

definition exampleAbortedRun :: run where
  "exampleAbortedRun = snd (acceptOtherRequest (newAbortController exampleTwo))"

text \<open>A listener of \<^verbatim>\<open>finish\<close> registers promise 7.\<close>

definition registeringEnvironment :: environment where
  "registeringEnvironment =
     quietEnvironment\<lparr>listeners := (\<lambda>tgt ev. if ev = Finish then noEffect\<lparr>registers := [7]\<rparr>
                                                else noEffect)\<rparr>"


text \<open>
  The callback of the chain link of \<^verbatim>\<open>navigate("/a")\<close>, run with a listener of
  \<^verbatim>\<open>finish\<close> that registers promise 7.
\<close>

definition exampleFinished :: "(error + AppHistoryEntry) \<times> AppHistory \<times> action list" where
  "exampleFinished =
     immediateTransition (NavString Push) exampleEntryA exampleTransitionA None
       registeringEnvironment exampleAccepted"


section \<open>Basic facts\<close>

lemma findIndex_ge: "findIndex P xs \<ge> -1"
  by (induction xs) (auto simp: Let_def)

lemma findIndex_found: "findIndex P xs > -1 \<longleftrightarrow> (\<exists>x \<in> set xs. P x)"
proof (induction xs)
  case Nil
  show ?case by simp
next
  case (Cons x xs)
  have "findIndex P xs \<ge> -1" by (rule findIndex_ge)
  with Cons show ?case by (auto simp: Let_def)
qed

section \<open>Sequences of steps\<close>


lemma steps_append:
  "steps (fs @ gs) r = (case steps fs r of (Some e, r') \<Rightarrow> (Some e, r') | (None, r') \<Rightarrow> steps gs r')"
  by (induction fs arbitrary: r) (auto split: prod.splits option.splits)

lemma steps_Cons_None:
  "steps (f # fs) r = (None, r') \<longleftrightarrow> (\<exists>r1. f r = (None, r1) \<and> steps fs r1 = (None, r'))"
  by (auto split: prod.splits option.splits)

lemma steps_preserves:
  assumes "\<And>f r x r'. f \<in> set fs \<Longrightarrow> P r \<Longrightarrow> f r = (x, r') \<Longrightarrow> P r'"
    and "P r" and "steps fs r = (x, r')"
  shows "P r'"
  using assms
proof (induction fs arbitrary: r)
  case Nil
  then show ?case by simp
next
  case (Cons f fs)
  obtain y r1 where f: "f r = (y, r1)" by (cases "f r")
  have p1: "P r1" using Cons.prems(1)[of f r y r1] Cons.prems(2) f by simp
  show ?case
  proof (cases y)
    case None
    with f Cons.prems(3) have "steps fs r1 = (x, r')" by simp
    then show ?thesis using Cons.IH[of r1] Cons.prems(1) p1 by auto
  next
    case (Some e)
    with f Cons.prems(3) have "r' = r1" by simp
    with p1 show ?thesis by simp
  qed
qed

lemma transitionWhile_frame:
  "transitionWhile p r = (x, r') \<Longrightarrow> nav r' = nav r \<and> abortController r' = abortController r"
  by (auto simp: transitionWhile_def split: if_splits)

lemma acceptOtherRequest_frame:
  "acceptOtherRequest r = (x, r') \<Longrightarrow>
     entries (nav r') = entries (nav r) \<and> known (nav r') = known (nav r)
     \<and> currentIndex (nav r') = currentIndex (nav r) \<and> promises r' = promises r \<and> trace r' = trace r
     \<and> x = None"
  by (auto simp: acceptOtherRequest_def abortInProgress_def split: option.splits)

lemma steps_related:
  assumes step: "\<And>f r x r'. f \<in> set fs \<Longrightarrow> f r = (x, r') \<Longrightarrow> R r r'"
    and refl: "\<And>r. R r r" and trans: "\<And>a b c. R a b \<Longrightarrow> R b c \<Longrightarrow> R a c"
    and run: "steps fs r = (x, r')"
  shows "R r r'"
proof (rule steps_preserves[where P = "R r" and fs = fs and r = r and x = x])
  fix f r0 y r1 assume "f \<in> set fs" "R r r0" "f r0 = (y, r1)"
  then show "R r r1" using step trans by blast
next
  show "R r r" by (rule refl)
next
  show "steps fs r = (x, r')" by (rule run)
qed

lemma sameHistory_refl: "sameHistory r r"
  by (simp add: sameHistory_def)

lemma sameHistory_trans: "sameHistory a b \<Longrightarrow> sameHistory b c \<Longrightarrow> sameHistory a c"
  by (simp add: sameHistory_def)

lemma applyEffect_sameHistory:
  assumes "applyEffect c eff r = (x, r')"
  shows "sameHistory r r'"
proof (rule steps_related[where R = sameHistory, OF _ sameHistory_refl sameHistory_trans
      assms[unfolded applyEffect_def]])
  fix f r0 y r1
  assume "f \<in> set ((if c then map transitionWhile (registers eff) else [])
            @ [onlyIf (aborts eff) acceptOtherRequest, throwIf (throws eff)])"
    and "f r0 = (y, r1)"
  then show "sameHistory r0 r1"
    by (auto simp: sameHistory_def onlyIf_def skip_def throwIf_def
        dest!: transitionWhile_frame acceptOtherRequest_frame split: if_splits)
qed

lemma log_sameHistory: "log a r = (x, r') \<Longrightarrow> sameHistory r r'"
  by (auto simp: log_def sameHistory_def)

lemma dispatchEvent_sameHistory:
  assumes "dispatchEvent env tgt ev r = (x, r')"
  shows "sameHistory r r'"
proof (rule steps_related[where R = sameHistory, OF _ sameHistory_refl sameHistory_trans
      assms[unfolded dispatchEvent_def]])
  fix f r0 y r1
  assume "f \<in> set [log (Dispatched tgt ev), applyEffect (carriesTransitionWhile ev) (listeners env tgt ev)]"
    and "f r0 = (y, r1)"
  then show "sameHistory r0 r1"
    using log_sameHistory applyEffect_sameHistory by auto
qed

section \<open>The disposal sweep\<close>


lemma rollbackImmediately_restores_nothing:
  "rollbackImmediately env snap r = (None, r\<lparr>trace := trace r @ [RollbackImmediately]\<rparr>)"
  by (simp add: rollbackImmediately_def split: prod.splits)

lemma transition_Some:
  "transition givenNavigationType entry (Some t) options env s =
     (case tryCatchFinally givenNavigationType entry options (current s)
             (t\<lparr>tRollback := createRollback (nav (newAbortController s))\<rparr>)
             (rollbackImmediately env (createRollback (nav (newAbortController s))))
             env (newAbortController s) of
        (None, r') \<Rightarrow> (Inr entry, nav r', trace r')
      | (Some e, r') \<Rightarrow> (Inl e, nav r', trace r'))"
proof -
  have "rollbackImmediately env (createRollback (nav (newAbortController s))) =
      (\<lambda>r. case rollbackArguments (createRollback (nav (newAbortController s))) None (rollbackFresh env) of
             (resolvedNavigationType, resolvedEntry, nextOptions) \<Rightarrow>
               (case transition resolvedNavigationType resolvedEntry None (Some nextOptions) env (nav r) of
                  (result, s', acts) \<Rightarrow>
                    (None, r\<lparr>nav := s', trace := trace r @ [RollbackImmediately] @ acts\<rparr>)))"
    by (rule ext) (simp only: rollbackImmediately_def)
  then show ?thesis by (simp only: transition.simps Let_def)
qed

lemma findIndex_absent: "findIndex P xs \<noteq> -1 \<longleftrightarrow> (\<exists>x \<in> set xs. P x)"
  using findIndex_found[of P xs] findIndex_ge[of P xs] by auto

lemma dispatch_Dispose:
  "dispatchEvent env tgt (Dispose k) r =
     (throws (listeners env tgt (Dispose k)),
      r\<lparr>trace := trace r @ [Dispatched tgt (Dispose k)],
        nav := (if aborts (listeners env tgt (Dispose k)) then abortInProgress (nav r) else nav r)\<rparr>)"
  by (simp add: dispatchEvent_def log_def applyEffect_def carriesTransitionWhile_def onlyIf_def
      skip_def acceptOtherRequest_def throwIf_def split: option.splits)

lemma abortInProgress_history:
  "entries (abortInProgress s) = entries s \<and> known (abortInProgress s) = known s
   \<and> currentIndex (abortInProgress s) = currentIndex s"
  by (simp add: abortInProgress_def split: option.splits)



section \<open>Steps that leave the history alone\<close>


lemma quietStep_refl: "quietStep r r"
  by (simp add: quietStep_def sameHistory_def)

lemma quietStep_trans: "quietStep a b \<Longrightarrow> quietStep b c \<Longrightarrow> quietStep a c"
  unfolding quietStep_def sameHistory_def by fastforce

lemma sweepStep_refl: "sweepStep r r"
  by (simp add: sweepStep_def)

lemma sweepStep_trans: "sweepStep a b \<Longrightarrow> sweepStep b c \<Longrightarrow> sweepStep a c"
  unfolding sweepStep_def by fastforce

lemma quietStep_sweepStep: "quietStep r r' \<Longrightarrow> sweepStep r r'"
  unfolding quietStep_def sweepStep_def sameHistory_def isDisposal_def by fastforce

lemma quietStepI:
  "sameHistory r r' \<Longrightarrow> trace r' = trace r @ ext \<Longrightarrow> (\<And>a. a \<in> set ext \<Longrightarrow> \<not> isDisposal a \<and> a \<noteq> Mutated)
     \<Longrightarrow> quietStep r r'"
  unfolding quietStep_def by blast

lemma transitionWhile_quiet: "transitionWhile p r = (x, r') \<Longrightarrow> quietStep r r'"
  by (auto simp: transitionWhile_def quietStep_def sameHistory_def isDisposal_def split: if_splits)

lemma acceptOtherRequest_quiet: "acceptOtherRequest r = (x, r') \<Longrightarrow> quietStep r r'"
  by (auto simp: quietStep_def sameHistory_def dest!: acceptOtherRequest_frame)

lemma log_quiet: "\<not> isDisposal a \<Longrightarrow> a \<noteq> Mutated \<Longrightarrow> log a r = (x, r') \<Longrightarrow> quietStep r r'"
  by (auto simp: log_def quietStep_def sameHistory_def)

lemma throwIf_quiet: "throwIf e r = (x, r') \<Longrightarrow> quietStep r r'"
  by (auto simp: throwIf_def quietStep_refl)




lemma clearActiveTransition_quiet: "clearActiveTransition t r = (x, r') \<Longrightarrow> quietStep r r'"
  by (auto simp: clearActiveTransition_def quietStep_def sameHistory_def split: if_splits)

lemma onlyIf_quiet:
  "(\<And>r x r'. f r = (x, r') \<Longrightarrow> quietStep r r') \<Longrightarrow> onlyIf c f r = (x, r') \<Longrightarrow> quietStep r r'"
  by (auto simp: onlyIf_def skip_def quietStep_refl split: if_splits)

lemma steps_quiet:
  "(\<And>f r x r'. f \<in> set fs \<Longrightarrow> f r = (x, r') \<Longrightarrow> quietStep r r') \<Longrightarrow> steps fs r = (x, r')
     \<Longrightarrow> quietStep r r'"
  by (rule steps_related[where R = quietStep and fs = fs, OF _ quietStep_refl quietStep_trans]) blast+

lemma applyEffect_quiet: "applyEffect c eff r = (x, r') \<Longrightarrow> quietStep r r'"
  unfolding applyEffect_def
  by (erule steps_quiet[rotated])
     (auto simp: onlyIf_def skip_def quietStep_refl throwIf_def
        dest: transitionWhile_quiet acceptOtherRequest_quiet split: if_splits)

lemma isDisposal_Dispatched: "isDisposal (Dispatched tgt ev) \<longleftrightarrow> (\<exists>k. ev = Dispose k)"
  by (cases ev) (simp_all add: isDisposal_def)

lemma log_Dispatched_quiet:
  assumes "\<And>k. ev \<noteq> Dispose k" "log (Dispatched tgt ev) r = (x, r')"
  shows "quietStep r r'"
proof (rule log_quiet[OF _ _ assms(2)])
  show "\<not> isDisposal (Dispatched tgt ev)" using assms(1) by (simp add: isDisposal_Dispatched)
  show "Dispatched tgt ev \<noteq> Mutated" by simp
qed

lemma log_Awaited_quiet: "log (Awaited p) r = (x, r') \<Longrightarrow> quietStep r r'"
  by (rule log_quiet[of "Awaited p"]) (simp_all add: isDisposal_def)

lemma dispatchEvent_quiet:
  assumes "\<And>k. ev \<noteq> Dispose k" "dispatchEvent env tgt ev r = (x, r')"
  shows "quietStep r r'"
proof (rule steps_quiet[OF _ assms(2)[unfolded dispatchEvent_def]])
  fix f r0 y r1
  assume "f \<in> set [log (Dispatched tgt ev), applyEffect (carriesTransitionWhile ev) (listeners env tgt ev)]"
    and run: "f r0 = (y, r1)"
  then consider "f = log (Dispatched tgt ev)"
    | "f = applyEffect (carriesTransitionWhile ev) (listeners env tgt ev)" by auto
  then show "quietStep r0 r1"
  proof cases
    case 1
    then show ?thesis using log_Dispatched_quiet[OF assms(1)] run by blast
  next
    case 2
    then show ?thesis using applyEffect_quiet run by blast
  qed
qed

lemma awaitPromise_quiet:
  assumes "awaitPromise env p r = (x, r')"
  shows "quietStep r r'"
proof (rule steps_quiet[OF _ assms[unfolded awaitPromise_def]])
  fix f r0 y r1
  assume "f \<in> set [applyEffect True (subOperation env p), log (Awaited p)]"
    and run: "f r0 = (y, r1)"
  then consider "f = applyEffect True (subOperation env p)" | "f = log (Awaited p)" by auto
  then show "quietStep r0 r1"
    using applyEffect_quiet log_Awaited_quiet run by cases blast+
qed

lemma promiseAll_quiet: "promiseAll env ps r = (x, r') \<Longrightarrow> quietStep r r'"
  unfolding promiseAll_def
  by (erule steps_quiet[rotated]) (auto dest: awaitPromise_quiet)

lemma awaitCaptured_quiet: "awaitCaptured env r = (x, r') \<Longrightarrow> quietStep r r'"
proof -
  assume a: "awaitCaptured env r = (x, r')"
  show ?thesis
  proof (cases "promises r = []")
    case True
    with a show ?thesis by (simp add: awaitCaptured_def quietStep_refl)
  next
    case False
    with a have "promiseAll env (promises r) (r\<lparr>promises := []\<rparr>) = (x, r')"
      by (simp add: awaitCaptured_def Let_def)
    then have "quietStep (r\<lparr>promises := []\<rparr>) r'" by (rule promiseAll_quiet)
    then show ?thesis by (simp add: quietStep_def sameHistory_def)
  qed
qed



section \<open>Disposals along a run\<close>


lemma deleteKnown_sweep: "deleteKnown k r = (x, r') \<Longrightarrow> sweepStep r r'"
  by (auto simp: deleteKnown_def sweepStep_def)

lemma dispatch_Dispose_sweep:
  assumes "unreachable (entries (nav r)) k" "dispatchEvent env tgt (Dispose k) r = (x, r')"
  shows "sweepStep r r'"
proof -
  have "entries (nav r') = entries (nav r)" "currentIndex (nav r') = currentIndex (nav r)"
    "trace r' = trace r @ [Dispatched tgt (Dispose k)]"
    using assms(2) by (auto simp: dispatch_Dispose abortInProgress_history)
  then show ?thesis using assms(1) unfolding sweepStep_def by auto
qed

lemma sweepStep_entries: "sweepStep r r' \<Longrightarrow> entries (nav r') = entries (nav r)"
  by (simp add: sweepStep_def)

lemma disposeEach_sweepStep: "disposeEach env ks r = (x, r') \<Longrightarrow> sweepStep r r'"
proof (induction ks arbitrary: r)
  case Nil
  then show ?case by (simp add: sweepStep_refl)
next
  case (Cons k ks)
  show ?case
  proof (cases "findIndex (\<lambda>entry. key entry = key k) (entries (nav r)) \<noteq> -1")
    case True
    with Cons.prems have "disposeEach env ks r = (x, r')" by simp
    then show ?thesis by (rule Cons.IH)
  next
    case False
    then have un: "unreachable (entries (nav r)) k"
      by (simp add: findIndex_absent unreachable_def)
    obtain y r1 where st: "steps [deleteKnown k, dispatchEvent env (OnEntry k) (Dispose k),
                        dispatchEvent env OnNavigator (Dispose k)] r = (y, r1)"
      by (cases "steps [deleteKnown k, dispatchEvent env (OnEntry k) (Dispose k),
                        dispatchEvent env OnNavigator (Dispose k)] r")
    have sw1: "sweepStep r r1"
    proof (rule steps_preserves[where P = "\<lambda>q. sweepStep r q" and r = r, OF _ sweepStep_refl st])
      fix f r0 z r2
      assume f: "f \<in> set [deleteKnown k, dispatchEvent env (OnEntry k) (Dispose k),
                        dispatchEvent env OnNavigator (Dispose k)]"
        and p: "sweepStep r r0" and run: "f r0 = (z, r2)"
      have un0: "unreachable (entries (nav r0)) k" using un sweepStep_entries[OF p] by simp
      have "sweepStep r0 r2"
        using f run deleteKnown_sweep dispatch_Dispose_sweep[OF un0] by auto
      with p show "sweepStep r r2" by (rule sweepStep_trans)
    qed
    show ?thesis
    proof (cases y)
      case (Some e)
      with st False Cons.prems have "r' = r1" by simp
      with sw1 show ?thesis by simp
    next
      case None
      with st False Cons.prems have "disposeEach env ks r1 = (x, r')" by simp
      then have "sweepStep r1 r'" by (rule Cons.IH)
      with sw1 show ?thesis by (rule sweepStep_trans)
    qed
  qed
qed

lemma dispose_sweepStep: "dispose env r = (x, r') \<Longrightarrow> sweepStep r r'"
  unfolding dispose_def by (rule disposeEach_sweepStep)

lemma steps_sweep:
  "(\<And>f r x r'. f \<in> set fs \<Longrightarrow> f r = (x, r') \<Longrightarrow> sweepStep r r') \<Longrightarrow> steps fs r = (x, r')
     \<Longrightarrow> sweepStep r r'"
  by (rule steps_related[where R = sweepStep and fs = fs, OF _ sweepStep_refl sweepStep_trans]) blast+

lemma protocolAfter_member_sweep:
  assumes f: "f \<in> set (protocolAfter navigationType entry env)" and run: "f r0 = (y, r1)"
  shows "sweepStep r0 r1"
proof -
  have d: "\<And>c tgt ev r x r'. (\<And>k. ev \<noteq> Dispose k) \<Longrightarrow> onlyIf c (dispatchEvent env tgt ev) r = (x, r')
      \<Longrightarrow> quietStep r r'"
    using onlyIf_quiet dispatchEvent_quiet by blast
  from f consider "f = onlyIf (sameDocument entry) (dispatchEvent env OnNavigator CurrentChange)"
    | "f = onlyIf (isString navigationType) (dispatchEvent env (OnEntry entry) Navigateto)"
    | "f = dispose env"
    | "f = awaitCaptured env"
    | "f = onlyIf (isString navigationType) (dispatchEvent env (OnEntry entry) Finish)"
    | "f = onlyIf (isString navigationType) (dispatchEvent env OnNavigator Navigatesuccess)"
    unfolding protocolAfter_def by auto
  then show "sweepStep r0 r1"
  proof cases
    case 1 then show ?thesis using d[of CurrentChange] run quietStep_sweepStep by blast
  next
    case 2 then show ?thesis using d[of Navigateto] run quietStep_sweepStep by blast
  next
    case 3 then show ?thesis using dispose_sweepStep run by blast
  next
    case 4 then show ?thesis using awaitCaptured_quiet run quietStep_sweepStep by blast
  next
    case 5 then show ?thesis using d[of Finish] run quietStep_sweepStep by blast
  next
    case 6 then show ?thesis using d[of Navigatesuccess] run quietStep_sweepStep by blast
  qed
qed

lemma protocolAfter_part_sweep:
  assumes "set fs \<subseteq> set (protocolAfter navigationType entry env)" "steps fs r = (x, r')"
  shows "sweepStep r r'"
proof (rule steps_sweep[OF _ assms(2)])
  fix f r0 y r1
  assume "f \<in> set fs" and "f r0 = (y, r1)"
  then show "sweepStep r0 r1" using protocolAfter_member_sweep assms(1) by blast
qed

lemma protocolAfter_sweep:
  assumes "steps (protocolAfter navigationType entry env) r = (x, r')"
  shows "sweepStep r r'"
  by (rule protocolAfter_part_sweep[OF subset_refl assms])

lemma protocol_split:
  "protocol navigationType entry cur currentTransition env =
     protocolBefore navigationType cur currentTransition env
     @ mutate (snd (createAppHistoryTransition env)) # protocolAfter navigationType entry env"
  by (simp add: protocol_def protocolBefore_def protocolAfter_def)







lemma finallyBlock_sweep:
  assumes "finallyBlock currentTransition env r = (x, r')"
  shows "sweepStep r r'"
proof (rule steps_sweep[OF _ assms[unfolded finallyBlock_def]])
  fix f r0 y r1
  assume "f \<in> set [dispose env, clearActiveTransition currentTransition]" and "f r0 = (y, r1)"
  then show "sweepStep r0 r1"
    using dispose_sweepStep clearActiveTransition_quiet quietStep_sweepStep by auto
qed





section \<open>At most one transition in flight\<close>

lemma pushEntry_Inr:
  "pushEntry ty e t opts s = Inr (s', res) \<Longrightarrow>
     transitionInProgressCount s' = transitionInProgressCount s \<and>
     (\<exists>l. chain s' = chain s @ [l] \<and> linkStatus l = Pending)"
  by (auto simp: pushEntry_def commitTransition_def Let_def queueTransition_def abortInProgress_def split: if_splits option.splits)


lemma shapeD:
  "chainInvariant s \<Longrightarrow> i < j \<Longrightarrow> j < length (chain s) \<Longrightarrow>
     linkStatus (chain s ! j) \<noteq> Pending \<Longrightarrow> linkStatus (chain s ! i) = Settled"
  unfolding chainInvariant_def by blast

lemma noFailD:
  "chainInvariant s \<Longrightarrow> k < length (chain s) \<Longrightarrow> linkStatus (chain s ! k) \<noteq> FailedMultiple"
  unfolding chainInvariant_def by blast

lemma countD:
  "chainInvariant s \<Longrightarrow> transitionInProgressCount s =
     (if \<exists>k < length (chain s). linkStatus (chain s ! k) = Running then 1 else 0)"
  unfolding chainInvariant_def by blast

lemma chainInvariantI:
  assumes "\<And>i j. i < j \<Longrightarrow> j < length (chain s) \<Longrightarrow> linkStatus (chain s ! j) \<noteq> Pending
             \<Longrightarrow> linkStatus (chain s ! i) = Settled"
    and "transitionInProgressCount s =
          (if \<exists>k < length (chain s). linkStatus (chain s ! k) = Running then 1 else 0)"
    and "\<And>k. k < length (chain s) \<Longrightarrow> linkStatus (chain s ! k) \<noteq> FailedMultiple"
  shows "chainInvariant s"
  unfolding chainInvariant_def using assms by blast

lemma status_setStatus:
  "j < length links \<Longrightarrow>
     linkStatus (setStatus k st links ! j) = (if j = k then st else linkStatus (links ! j))"
  by (simp add: setStatus_def nth_list_update)

lemma length_setStatus: "length (setStatus k st links) = length links"
  by (simp add: setStatus_def)

lemma chainInvariant_initial: "chainInvariant initialAppHistory"
  by (simp add: chainInvariant_def initialAppHistory_def)

lemma chainInvariant_one_running:
  assumes "chainInvariant s" "i < length (chain s)" "j < length (chain s)"
    "linkStatus (chain s ! i) = Running" "linkStatus (chain s ! j) = Running"
  shows "i = j"
proof (rule ccontr)
  assume "i \<noteq> j"
  then consider "i < j" | "j < i" by linarith
  then show False
  proof cases
    case 1
    have "linkStatus (chain s ! i) = Settled"
      by (rule shapeD[OF assms(1) 1 assms(3)]) (simp add: assms(5))
    with assms show False by simp
  next
    case 2
    have "linkStatus (chain s ! j) = Settled"
      by (rule shapeD[OF assms(1) 2 assms(2)]) (simp add: assms(4))
    with assms show False by simp
  qed
qed

lemma chainInvariant_accept:
  assumes inv: "chainInvariant s" and push: "pushEntry ty e t opts s = Inr (s', res)"
  shows "chainInvariant s'"
proof -
  from pushEntry_Inr[OF push] obtain l where
    c: "transitionInProgressCount s' = transitionInProgressCount s"
    and ch: "chain s' = chain s @ [l]" and p: "linkStatus l = Pending" by blast
  have len: "length (chain s') = Suc (length (chain s))" using ch by simp
  have old: "\<And>j. j < length (chain s) \<Longrightarrow> chain s' ! j = chain s ! j"
    using ch by (simp add: nth_append)
  have new: "linkStatus (chain s' ! length (chain s)) = Pending"
    using ch p by (simp add: nth_append)
  have r: "(\<exists>k < length (chain s'). linkStatus (chain s' ! k) = Running)
        \<longleftrightarrow> (\<exists>k < length (chain s). linkStatus (chain s ! k) = Running)"
  proof
    assume "\<exists>k < length (chain s'). linkStatus (chain s' ! k) = Running"
    then obtain k where k: "k < length (chain s')" "linkStatus (chain s' ! k) = Running" by blast
    have "k \<noteq> length (chain s)" using k new by auto
    with k len have "k < length (chain s)" by simp
    with k old show "\<exists>k < length (chain s). linkStatus (chain s ! k) = Running" by auto
  next
    assume "\<exists>k < length (chain s). linkStatus (chain s ! k) = Running"
    then obtain k where k: "k < length (chain s)" "linkStatus (chain s ! k) = Running" by blast
    then have "k < length (chain s')" "linkStatus (chain s' ! k) = Running" using len old by auto
    then show "\<exists>k < length (chain s'). linkStatus (chain s' ! k) = Running" by blast
  qed
  show ?thesis
  proof (rule chainInvariantI)
    fix i j assume a: "i < j" "j < length (chain s')" "linkStatus (chain s' ! j) \<noteq> Pending"
    have "j \<noteq> length (chain s)" using a new by auto
    with a len have j: "j < length (chain s)" by simp
    with a have i: "i < length (chain s)" by simp
    have "linkStatus (chain s ! i) = Settled"
      by (rule shapeD[OF inv a(1) j]) (use a old j in simp)
    then show "linkStatus (chain s' ! i) = Settled" using old i by simp
  next
    show "transitionInProgressCount s' =
      (if \<exists>k<length (chain s'). linkStatus (chain s' ! k) = Running then 1 else 0)"
      using countD[OF inv] c r by simp
  next
    fix k assume k: "k < length (chain s')"
    show "linkStatus (chain s' ! k) \<noteq> FailedMultiple"
    proof (cases "k = length (chain s)")
      case True then show ?thesis using new by simp
    next
      case False
      with k len have "k < length (chain s)" by simp
      then show ?thesis using noFailD[OF inv] old by simp
    qed
  qed
qed

lemma chainInvariant_enter:
  assumes inv: "chainInvariant s" and k: "k < length (chain s)"
    and p: "linkStatus (chain s ! k) = Pending"
    and pre: "k = 0 \<or> isSettled (linkStatus (chain s ! (k - 1)))"
    and s': "s' = s\<lparr>transitionInProgressCount := transitionInProgressCount s + 1,
                    chain := setStatus k Running (chain s)\<rparr>"
  shows "chainInvariant s'"
proof -
  have len: "length (chain s') = length (chain s)" using s' by (simp add: length_setStatus)
  have st: "\<And>j. j < length (chain s) \<Longrightarrow>
      linkStatus (chain s' ! j) = (if j = k then Running else linkStatus (chain s ! j))"
    using s' by (simp add: status_setStatus)
  have cnt: "transitionInProgressCount s' = transitionInProgressCount s + 1" using s' by simp
  have before: "\<And>i. i < k \<Longrightarrow> linkStatus (chain s ! i) = Settled"
  proof -
    fix i assume ik: "i < k"
    then have k0: "k \<noteq> 0" by simp
    with pre have s1: "isSettled (linkStatus (chain s ! (k - 1)))" by simp
    have k1: "k - 1 < length (chain s)" using k by simp
    have "linkStatus (chain s ! (k - 1)) \<noteq> FailedMultiple" by (rule noFailD[OF inv k1])
    with s1 have s2: "linkStatus (chain s ! (k - 1)) = Settled" by (simp add: isSettled_def)
    show "linkStatus (chain s ! i) = Settled"
    proof (cases "i = k - 1")
      case True with s2 show ?thesis by simp
    next
      case False
      with ik have "i < k - 1" by simp
      moreover have "linkStatus (chain s ! (k - 1)) \<noteq> Pending" using s2 by simp
      ultimately show ?thesis using shapeD[OF inv _ k1] by blast
    qed
  qed
  have after: "\<And>j. k < j \<Longrightarrow> j < length (chain s) \<Longrightarrow> linkStatus (chain s ! j) = Pending"
  proof (rule ccontr)
    fix j assume a: "k < j" "j < length (chain s)" "linkStatus (chain s ! j) \<noteq> Pending"
    have "linkStatus (chain s ! k) = Settled" by (rule shapeD[OF inv a])
    with p show False by simp
  qed
  have norun: "\<not> (\<exists>i < length (chain s). linkStatus (chain s ! i) = Running)"
  proof
    assume "\<exists>i < length (chain s). linkStatus (chain s ! i) = Running"
    then obtain i where i: "i < length (chain s)" "linkStatus (chain s ! i) = Running" by blast
    then consider "i < k" | "i = k" | "k < i" by linarith
    then show False using i before after p by cases auto
  qed
  show ?thesis
  proof (rule chainInvariantI)
    fix i j
    assume a: "i < j" "j < length (chain s')" "linkStatus (chain s' ! j) \<noteq> Pending"
    then have j: "j < length (chain s)" using len by simp
    have "\<not> k < j"
    proof
      assume "k < j"
      then have "linkStatus (chain s ! j) = Pending" using after j by simp
      moreover have "j \<noteq> k" using \<open>k < j\<close> by simp
      ultimately show False using a(3) st[OF j] by simp
    qed
    with a have ik: "i < k" by simp
    then have "i < length (chain s)" using k by simp
    then show "linkStatus (chain s' ! i) = Settled" using st before ik by simp
  next
    have "\<exists>i < length (chain s'). linkStatus (chain s' ! i) = Running"
      using k st len by auto
    moreover have "transitionInProgressCount s = 0" using countD[OF inv] norun by simp
    ultimately show "transitionInProgressCount s' =
       (if \<exists>i<length (chain s'). linkStatus (chain s' ! i) = Running then 1 else 0)"
      using cnt by simp
  next
    fix i assume "i < length (chain s')"
    then have i: "i < length (chain s)" using len by simp
    show "linkStatus (chain s' ! i) \<noteq> FailedMultiple"
      using st[OF i] noFailD[OF inv i] by simp
  qed
qed

lemma chainInvariant_leave:
  assumes inv: "chainInvariant s" and k: "k < length (chain s)"
    and p: "linkStatus (chain s ! k) = Running"
    and s': "s' = s\<lparr>transitionInProgressCount := transitionInProgressCount s - 1,
                    chain := setStatus k Settled (chain s)\<rparr>"
  shows "chainInvariant s'"
proof -
  have len: "length (chain s') = length (chain s)" using s' by (simp add: length_setStatus)
  have st: "\<And>j. j < length (chain s) \<Longrightarrow>
      linkStatus (chain s' ! j) = (if j = k then Settled else linkStatus (chain s ! j))"
    using s' by (simp add: status_setStatus)
  have cnt: "transitionInProgressCount s' = transitionInProgressCount s - 1" using s' by simp
  have only: "\<And>i. i < length (chain s) \<Longrightarrow> linkStatus (chain s ! i) = Running \<Longrightarrow> i = k"
    using chainInvariant_one_running[OF inv _ k _ p] by blast
  have c: "transitionInProgressCount s = 1" using countD[OF inv] k p by auto
  have norun: "\<not> (\<exists>i < length (chain s'). linkStatus (chain s' ! i) = Running)"
  proof
    assume "\<exists>i < length (chain s'). linkStatus (chain s' ! i) = Running"
    then obtain i where i: "i < length (chain s)" "linkStatus (chain s' ! i) = Running"
      using len by auto
    then show False using st[OF i(1)] only[OF i(1)] by (cases "i = k") auto
  qed
  show ?thesis
  proof (rule chainInvariantI)
    fix i j assume a: "i < j" "j < length (chain s')" "linkStatus (chain s' ! j) \<noteq> Pending"
    then have j: "j < length (chain s)" using len by simp
    then have i: "i < length (chain s)" using a by simp
    have "linkStatus (chain s ! j) \<noteq> Pending" using a(3) st[OF j] p by (cases "j = k") auto
    then have "linkStatus (chain s ! i) = Settled" by (rule shapeD[OF inv a(1) j])
    then show "linkStatus (chain s' ! i) = Settled" using st[OF i] by simp
  next
    show "transitionInProgressCount s' =
       (if \<exists>i<length (chain s'). linkStatus (chain s' ! i) = Running then 1 else 0)"
      using norun cnt c by simp
  next
    fix i assume "i < length (chain s')"
    then have i: "i < length (chain s)" using len by simp
    show "linkStatus (chain s' ! i) \<noteq> FailedMultiple"
      using st[OF i] noFailD[OF inv i] by simp
  qed
qed

lemma chainInvariant_execution:
  assumes "chainInvariant s" "execution s s'"
  shows "chainInvariant s'"
  using assms(2)
proof (cases rule: execution.cases)
  case (accept navigationType entry t options result)
  then show ?thesis using chainInvariant_accept[OF assms(1)] by blast
next
  case (enter k)
  then show ?thesis using chainInvariant_enter[OF assms(1)] by blast
next
  case (multiple k)
  have "transitionInProgressCount s \<le> 1" using countD[OF assms(1)] by simp
  with multiple show ?thesis by simp
next
  case work
  have "chainInvariant s' = chainInvariant s"
    unfolding chainInvariant_def using work by simp
  then show ?thesis using assms(1) by simp
next
  case (leave k)
  then show ?thesis using chainInvariant_leave[OF assms(1)] by blast
qed

lemma reachable_chainInvariant: "reachable s \<Longrightarrow> chainInvariant s"
  by (induction rule: reachable.induct) (auto intro: chainInvariant_initial chainInvariant_execution)

lemma navigate_example:
  "navigate ''/a'' None exampleFreshA initialAppHistory =
     Inr (exampleAccepted, \<lparr> committed = Resolved exampleEntryA, finished = Chained 0 \<rparr>)"
  by (simp add: navigate_def pushEntry_def exampleAccepted_def exampleEntryA_def current_def
      initialAppHistory_def commitTransition_def Let_def)

lemma reachable_exampleAccepted: "reachable exampleAccepted"
proof -
  have "pushEntry (NavString Push) exampleEntryA None None initialAppHistory =
          Inr (exampleAccepted, \<lparr> committed = Resolved exampleEntryA, finished = Chained 0 \<rparr>)"
    using navigate_example by (simp add: navigate_def exampleEntryA_def Let_def)
  then have "execution initialAppHistory exampleAccepted" by (rule execution.accept)
  with reachable.initial show ?thesis by (rule reachable.after)
qed

lemma chain_exampleAccepted:
  "length (chain exampleAccepted) = 1 \<and> linkStatus (chain exampleAccepted ! 0) = Pending
   \<and> transitionInProgressCount exampleAccepted = 0"
  by (simp add: exampleAccepted_def commitTransition_def Let_def initialAppHistory_def
      queueTransition_def abortInProgress_def)

lemma reachable_exampleEntered: "reachable exampleEntered"
proof -
  have "execution exampleAccepted exampleEntered"
    unfolding exampleEntered_def
    by (rule execution.enter) (simp_all add: chain_exampleAccepted)
  with reachable_exampleAccepted show ?thesis by (rule reachable.after)
qed

text \<open>
  Claim C1. In every state an execution of the public operations reaches, the counter
  \<^verbatim>\<open>#transitionInProgressCount\<close> is 0 or 1, and no link of the chain has taken the branch
  that throws \<^verbatim>\<open>InvalidStateError("Unexpected multiple transitions")\<close>.
\<close>

theorem counter_at_most_one:
  "reachable s \<Longrightarrow>
     0 \<le> transitionInProgressCount s \<and> transitionInProgressCount s \<le> 1 \<and>
     FailedMultiple \<notin> set (map linkStatus (chain s))"
proof -
  assume "reachable s"
  then have inv: "chainInvariant s" by (rule reachable_chainInvariant)
  have "0 \<le> transitionInProgressCount s" "transitionInProgressCount s \<le> 1"
    using countD[OF inv] by simp_all
  moreover have "FailedMultiple \<notin> set (map linkStatus (chain s))"
  proof
    assume "FailedMultiple \<in> set (map linkStatus (chain s))"
    then obtain k where "k < length (chain s)" "linkStatus (chain s ! k) = FailedMultiple"
      by (auto simp: in_set_conv_nth)
    then show False using noFailD[OF inv] by blast
  qed
  ultimately show ?thesis by simp
qed

theorem counter_at_most_one_witness:
  "reachable exampleEntered \<and> transitionInProgressCount exampleEntered = 1 \<and>
   0 \<le> transitionInProgressCount exampleEntered \<and> transitionInProgressCount exampleEntered \<le> 1 \<and>
   FailedMultiple \<notin> set (map linkStatus (chain exampleEntered))"
proof -
  have "transitionInProgressCount exampleEntered = 1"
    by (simp add: exampleEntered_def chain_exampleAccepted)
  with counter_at_most_one[OF reachable_exampleEntered] reachable_exampleEntered
  show ?thesis by simp
qed

section \<open>The \<^verbatim>\<open>catch\<close> block and \<^verbatim>\<open>NavigationTransitionRejected\<close>\<close>








lemma abort_in_rejected:
  assumes "\<not> ntSignalAborted t" "isRejected t"
  shows "NavigationTransitionAbort nenv t = (t\<lparr>ntSignalAborted := True\<rparr>, [NtDispatched NtAbort])"
  using assms by simp

lemma rejected_first:
  assumes "\<not> isRejected t" "\<not> ntSignalAborted t"
  shows "NavigationTransitionRejected nenv reason t =
     (case afterAbort nenv reason (t\<lparr>isRejected := True, ntSignalAborted := True\<rparr>) of
        (thrown, t2, acts2) \<Rightarrow> (thrown, t2, NtDispatched NtAbort # acts2))"
proof -
  have "NavigationTransitionAbort nenv (t\<lparr>isRejected := True\<rparr>)
      = (t\<lparr>isRejected := True, ntSignalAborted := True\<rparr>, [NtDispatched NtAbort])"
    using abort_in_rejected[of "t\<lparr>isRejected := True\<rparr>" nenv] assms by simp
  then show ?thesis using assms by (simp split: prod.splits)
qed

section \<open>What every step of a run keeps\<close>


lemma stepRelation_refl: "stepRelation R \<Longrightarrow> R r r"
  unfolding stepRelation_def by blast

lemma stepRelation_trans: "stepRelation R \<Longrightarrow> R a b \<Longrightarrow> R b c \<Longrightarrow> R a c"
  unfolding stepRelation_def by blast

lemma steps_stepRelation:
  assumes "stepRelation R" "\<And>f r x r'. f \<in> set fs \<Longrightarrow> f r = (x, r') \<Longrightarrow> R r r'" "steps fs r = (x, r')"
  shows "R r r'"
  by (rule steps_related[where R = R and fs = fs, OF assms(2) stepRelation_refl[OF assms(1)]
        stepRelation_trans[OF assms(1)] assms(3)])

lemma onlyIf_stepRelation:
  assumes "stepRelation R" "\<And>r x r'. f r = (x, r') \<Longrightarrow> R r r'" "onlyIf c f r = (x, r')"
  shows "R r r'"
  using assms by (auto simp: onlyIf_def skip_def stepRelation_refl split: if_splits)

lemma primitive_stepRelation:
  assumes "stepRelation R"
  shows "transitionWhile p r = (x, r') \<Longrightarrow> R r r'"
    and "acceptOtherRequest r = (x, r') \<Longrightarrow> R r r'"
    and "log a r = (x, r') \<Longrightarrow> R r r'"
    and "setActiveTransition t r = (x, r') \<Longrightarrow> R r r'"
    and "clearActiveTransition t r = (x, r') \<Longrightarrow> R r r'"
    and "mutate m r = (x, r') \<Longrightarrow> R r r'"
    and "deleteKnown k r = (x, r') \<Longrightarrow> R r r'"
    and "throwIf e r = (x, r') \<Longrightarrow> R r r'"
    and "skip r = (x, r') \<Longrightarrow> R r r'"
    and "checkAborted r = (x, r') \<Longrightarrow> R r r'"
proof -
  show "transitionWhile p r = (x, r') \<Longrightarrow> R r r'"
    using assms unfolding stepRelation_def by (metis snd_conv)
  show "acceptOtherRequest r = (x, r') \<Longrightarrow> R r r'"
    using assms unfolding stepRelation_def by (metis snd_conv)
  show "log a r = (x, r') \<Longrightarrow> R r r'"
    using assms unfolding stepRelation_def by (metis snd_conv)
  show "setActiveTransition t r = (x, r') \<Longrightarrow> R r r'"
    using assms unfolding stepRelation_def by (metis snd_conv)
  show "clearActiveTransition t r = (x, r') \<Longrightarrow> R r r'"
    using assms unfolding stepRelation_def by (metis snd_conv)
  show "mutate m r = (x, r') \<Longrightarrow> R r r'"
    using assms unfolding stepRelation_def by (metis snd_conv)
  show "deleteKnown k r = (x, r') \<Longrightarrow> R r r'"
    using assms unfolding stepRelation_def by (metis snd_conv)
  show "throwIf e r = (x, r') \<Longrightarrow> R r r'"
    using stepRelation_refl[OF assms] by (auto simp: throwIf_def)
  show "skip r = (x, r') \<Longrightarrow> R r r'"
    using stepRelation_refl[OF assms] by (auto simp: skip_def)
  show "checkAborted r = (x, r') \<Longrightarrow> R r r'"
    using stepRelation_refl[OF assms] by (auto simp: checkAborted_def split: if_splits)
qed

lemma applyEffect_stepRelation:
  assumes "stepRelation R" "applyEffect c eff r = (x, r')"
  shows "R r r'"
proof (rule steps_stepRelation[OF assms(1) _ assms(2)[unfolded applyEffect_def]])
  fix f r0 y r1
  assume f: "f \<in> set ((if c then map transitionWhile (registers eff) else [])
            @ [onlyIf (aborts eff) acceptOtherRequest, throwIf (throws eff)])"
    and run: "f r0 = (y, r1)"
  from f consider p where "f = transitionWhile p" | "f = onlyIf (aborts eff) acceptOtherRequest"
    | "f = throwIf (throws eff)" by (auto split: if_splits)
  then show "R r0 r1"
  proof cases
    case 1 then show ?thesis using primitive_stepRelation(1)[OF assms(1)] run by blast
  next
    case 2
    then show ?thesis
      using onlyIf_stepRelation[OF assms(1), of acceptOtherRequest] primitive_stepRelation(2)[OF assms(1)] run
      by blast
  next
    case 3 then show ?thesis using primitive_stepRelation(8)[OF assms(1)] run by blast
  qed
qed

lemma dispatchEvent_stepRelation:
  assumes "stepRelation R" "dispatchEvent env tgt ev r = (x, r')"
  shows "R r r'"
proof (rule steps_stepRelation[OF assms(1) _ assms(2)[unfolded dispatchEvent_def]])
  fix f r0 y r1
  assume "f \<in> set [log (Dispatched tgt ev), applyEffect (carriesTransitionWhile ev) (listeners env tgt ev)]"
    and run: "f r0 = (y, r1)"
  then consider "f = log (Dispatched tgt ev)"
    | "f = applyEffect (carriesTransitionWhile ev) (listeners env tgt ev)" by auto
  then show "R r0 r1"
    using primitive_stepRelation(3)[OF assms(1)] applyEffect_stepRelation[OF assms(1)] run by cases blast+
qed

lemma awaitPromise_stepRelation:
  assumes "stepRelation R" "awaitPromise env p r = (x, r')"
  shows "R r r'"
proof (rule steps_stepRelation[OF assms(1) _ assms(2)[unfolded awaitPromise_def]])
  fix f r0 y r1
  assume "f \<in> set [applyEffect True (subOperation env p), log (Awaited p)]" and run: "f r0 = (y, r1)"
  then consider "f = applyEffect True (subOperation env p)" | "f = log (Awaited p)" by auto
  then show "R r0 r1"
    using primitive_stepRelation(3)[OF assms(1)] applyEffect_stepRelation[OF assms(1)] run by cases blast+
qed

lemma promiseAll_stepRelation:
  assumes "stepRelation R" "promiseAll env ps r = (x, r')"
  shows "R r r'"
proof (rule steps_stepRelation[OF assms(1) _ assms(2)[unfolded promiseAll_def]])
  fix f r0 y r1
  assume "f \<in> set (map (awaitPromise env) ps)" and "f r0 = (y, r1)"
  then show "R r0 r1" using awaitPromise_stepRelation[OF assms(1)] by auto
qed

lemma awaitCaptured_stepRelation:
  assumes "stepRelation R" "awaitCaptured env r = (x, r')"
  shows "R r r'"
proof (cases "promises r = []")
  case True
  with assms(2) show ?thesis by (simp add: awaitCaptured_def stepRelation_refl[OF assms(1)])
next
  case False
  with assms(2) have "promiseAll env (promises r) (r\<lparr>promises := []\<rparr>) = (x, r')"
    by (simp add: awaitCaptured_def Let_def)
  then have "R (r\<lparr>promises := []\<rparr>) r'" by (rule promiseAll_stepRelation[OF assms(1)])
  moreover have "R r (r\<lparr>promises := []\<rparr>)" using assms(1) unfolding stepRelation_def by blast
  ultimately show ?thesis using stepRelation_trans[OF assms(1)] by blast
qed

lemma disposeEach_stepRelation:
  assumes "stepRelation R"
  shows "disposeEach env ks r = (x, r') \<Longrightarrow> R r r'"
proof (induction ks arbitrary: r)
  case Nil
  then show ?case by (simp add: stepRelation_refl[OF assms])
next
  case (Cons k ks)
  show ?case
  proof (cases "findIndex (\<lambda>entry. key entry = key k) (entries (nav r)) \<noteq> -1")
    case True
    with Cons.prems have "disposeEach env ks r = (x, r')" by simp
    then show ?thesis by (rule Cons.IH)
  next
    case False
    obtain y r1 where st: "steps [deleteKnown k, dispatchEvent env (OnEntry k) (Dispose k),
                        dispatchEvent env OnNavigator (Dispose k)] r = (y, r1)"
      by (cases "steps [deleteKnown k, dispatchEvent env (OnEntry k) (Dispose k),
                        dispatchEvent env OnNavigator (Dispose k)] r")
    have r1: "R r r1"
    proof (rule steps_stepRelation[OF assms _ st])
      fix f r0 z r2
      assume "f \<in> set [deleteKnown k, dispatchEvent env (OnEntry k) (Dispose k),
                        dispatchEvent env OnNavigator (Dispose k)]" and "f r0 = (z, r2)"
      then show "R r0 r2"
        using primitive_stepRelation(7)[OF assms] dispatchEvent_stepRelation[OF assms] by auto
    qed
    show ?thesis
    proof (cases y)
      case (Some e)
      with st False Cons.prems have "r' = r1" by simp
      with r1 show ?thesis by simp
    next
      case None
      with st False Cons.prems have "disposeEach env ks r1 = (x, r')" by simp
      then have "R r1 r'" by (rule Cons.IH)
      with r1 show ?thesis using stepRelation_trans[OF assms] by blast
    qed
  qed
qed

lemma dispose_stepRelation: "stepRelation R \<Longrightarrow> dispose env r = (x, r') \<Longrightarrow> R r r'"
  unfolding dispose_def by (rule disposeEach_stepRelation)

lemma protocol_member:
  assumes "stepRelation R" and f: "f \<in> set (protocol navigationType entry cur currentTransition env)"
    and run: "f r0 = (y, r1)"
  shows "R r0 r1"
proof -
  note o = onlyIf_stepRelation[OF assms(1)]
  note d = dispatchEvent_stepRelation[OF assms(1)]
  have nf: "\<And>r x r'. (case cur of Some c \<Rightarrow> dispatchEvent env (OnEntry c) Navigatefrom | None \<Rightarrow> skip) r
      = (x, r') \<Longrightarrow> R r r'"
    using d primitive_stepRelation(9)[OF assms(1)] by (cases cur) auto
  from f consider "f = applyEffect True (fst (createAppHistoryTransition env))"
    | "f = checkAborted"
    | "f = onlyIf (isString navigationType) (setActiveTransition currentTransition)"
    | "f = onlyIf (isString navigationType \<or> navigationType = Rollback)
         (case cur of Some c \<Rightarrow> dispatchEvent env (OnEntry c) Navigatefrom | None \<Rightarrow> skip)"
    | tgt ev c where "f = onlyIf c (dispatchEvent env tgt ev)"
    | "f = mutate (snd (createAppHistoryTransition env))"
    | "f = dispose env"
    | "f = awaitCaptured env"
    unfolding protocol_def by auto
  then show "R r0 r1"
  proof cases
    case 1 then show ?thesis using applyEffect_stepRelation[OF assms(1)] run by blast
  next
    case 2 then show ?thesis using primitive_stepRelation(10)[OF assms(1)] run by blast
  next
    case 3
    have "\<And>r x r'. setActiveTransition currentTransition r = (x, r') \<Longrightarrow> R r r'"
      by (rule primitive_stepRelation(4)[OF assms(1)])
    then show ?thesis using o 3 run by blast
  next
    case 4 then show ?thesis using o nf run by blast
  next
    case 5
    have "\<And>r x r'. dispatchEvent env tgt ev r = (x, r') \<Longrightarrow> R r r'" by (rule d)
    then show ?thesis using o 5 run by blast
  next
    case 6 then show ?thesis using primitive_stepRelation(6)[OF assms(1)] run by blast
  next
    case 7 then show ?thesis using dispose_stepRelation[OF assms(1)] run by blast
  next
    case 8 then show ?thesis using awaitCaptured_stepRelation[OF assms(1)] run by blast
  qed
qed

lemma protocol_part_stepRelation:
  assumes "stepRelation R" "set fs \<subseteq> set (protocol navigationType entry cur currentTransition env)"
    "steps fs r = (x, r')"
  shows "R r r'"
proof (rule steps_stepRelation[OF assms(1) _ assms(3)])
  fix f r0 y r1
  assume "f \<in> set fs" and "f r0 = (y, r1)"
  then show "R r0 r1" using protocol_member[OF assms(1)] assms(2) by blast
qed

lemma protocol_stepRelation:
  assumes "stepRelation R" "steps (protocol navigationType entry cur currentTransition env) r = (x, r')"
  shows "R r r'"
  by (rule protocol_part_stepRelation[OF assms(1) subset_refl assms(2)])

lemma completeTransition_stepRelation:
  assumes "stepRelation R"
    "completeTransition givenNavigationType entry options cur currentTransition env r = (x, r')"
  shows "R r r'"
proof (cases "isRestore givenNavigationType options")
  case True
  with assms(2) have "r' = restoreSnapshot (the options) r" by (simp add: completeTransition_def)
  then show ?thesis using assms(1) unfolding stepRelation_def by blast
next
  case False
  with assms(2) show ?thesis using protocol_stepRelation[OF assms(1)] by (simp add: completeTransition_def)
qed

lemma rollbackImmediately_log: "rollbackImmediately env snap = log RollbackImmediately"
  by (rule ext) (simp add: rollbackImmediately_restores_nothing log_def)

lemma catchBlock_stepRelation:
  assumes "stepRelation R" "catchBlock navigationType err (rollbackImmediately env snap) env r = (e, r')"
  shows "R r r'"
proof (cases "\<not> isInvalidStateError err \<and> (isString navigationType \<or> navigationType = Rollback)")
  case False
  with assms(2) show ?thesis by (auto simp: catchBlock_def stepRelation_refl[OF assms(1)])
next
  case True
  obtain y r1 where st: "steps [onlyIf (navigationType \<noteq> Rollback) (rollbackImmediately env snap),
                        dispatchEvent env OnNavigator (Navigateerror err)] r = (y, r1)"
    by (cases "steps [onlyIf (navigationType \<noteq> Rollback) (rollbackImmediately env snap),
                        dispatchEvent env OnNavigator (Navigateerror err)] r")
  have "r' = r1" using assms(2) True st by (auto simp: catchBlock_def split: option.splits)
  moreover have "R r r1"
  proof (rule steps_stepRelation[OF assms(1) _ st])
    fix f r0 z r2
    assume f: "f \<in> set [onlyIf (navigationType \<noteq> Rollback) (rollbackImmediately env snap),
                        dispatchEvent env OnNavigator (Navigateerror err)]" and run: "f r0 = (z, r2)"
    have 1: "\<And>r x r'. rollbackImmediately env snap r = (x, r') \<Longrightarrow> R r r'"
      unfolding rollbackImmediately_log by (rule primitive_stepRelation(3)[OF assms(1)])
    have 3: "\<And>r x r'. onlyIf (navigationType \<noteq> Rollback) (rollbackImmediately env snap) r = (x, r')
        \<Longrightarrow> R r r'"
      using onlyIf_stepRelation[OF assms(1)] 1 by blast
    from f run show "R r0 r2" using dispatchEvent_stepRelation[OF assms(1)] 3 by auto
  qed
  ultimately show ?thesis by simp
qed

lemma finallyBlock_stepRelation:
  assumes "stepRelation R" "finallyBlock currentTransition env r = (x, r')"
  shows "R r r'"
proof (rule steps_stepRelation[OF assms(1) _ assms(2)[unfolded finallyBlock_def]])
  fix f r0 y r1
  assume "f \<in> set [dispose env, clearActiveTransition currentTransition]" and "f r0 = (y, r1)"
  then show "R r0 r1"
    using dispose_stepRelation[OF assms(1)] primitive_stepRelation(5)[OF assms(1)] by auto
qed

lemma tryCatchFinally_stepRelation:
  assumes "stepRelation R"
    "tryCatchFinally givenNavigationType entry options cur currentTransition
       (rollbackImmediately env snap) env r = (x, r')"
  shows "R r r'"
proof -
  note tr = stepRelation_trans[OF assms(1)]
  obtain y r1 where c: "completeTransition givenNavigationType entry options cur currentTransition env r = (y, r1)"
    by (cases "completeTransition givenNavigationType entry options cur currentTransition env r")
  have 1: "R r r1" by (rule completeTransition_stepRelation[OF assms(1) c])
  show ?thesis
  proof (cases y)
    case None
    with c assms(2) have "finallyBlock currentTransition env r1 = (x, r')"
      by (simp add: tryCatchFinally_def)
    then show ?thesis using finallyBlock_stepRelation[OF assms(1)] 1 tr by blast
  next
    case (Some err)
    obtain e r2 where k: "catchBlock givenNavigationType err (rollbackImmediately env snap) env r1 = (e, r2)"
      by (cases "catchBlock givenNavigationType err (rollbackImmediately env snap) env r1")
    obtain z r3 where f: "finallyBlock currentTransition env r2 = (z, r3)"
      by (cases "finallyBlock currentTransition env r2")
    have "r' = r3" using Some c k f assms(2) by (auto simp: tryCatchFinally_def split: option.splits)
    moreover have "R r1 r2" by (rule catchBlock_stepRelation[OF assms(1) k])
    moreover have "R r2 r3" by (rule finallyBlock_stepRelation[OF assms(1) f])
    ultimately show ?thesis using 1 tr by blast
  qed
qed

lemma transition_stepRelation:
  assumes "stepRelation R"
    "transition givenNavigationType entry (Some t) options env s = (result, s', acts)"
  shows "\<exists>r'. R (newAbortController s) r' \<and> nav r' = s' \<and> trace r' = acts"
proof -
  obtain x r' where t: "tryCatchFinally givenNavigationType entry options (current s)
             (t\<lparr>tRollback := createRollback (nav (newAbortController s))\<rparr>)
             (rollbackImmediately env (createRollback (nav (newAbortController s))))
             env (newAbortController s) = (x, r')"
    by (cases "tryCatchFinally givenNavigationType entry options (current s)
             (t\<lparr>tRollback := createRollback (nav (newAbortController s))\<rparr>)
             (rollbackImmediately env (createRollback (nav (newAbortController s))))
             env (newAbortController s)")
  have "R (newAbortController s) r'" by (rule tryCatchFinally_stepRelation[OF assms(1) t])
  moreover have "nav r' = s' \<and> trace r' = acts"
    using assms(2) t unfolding transition_Some by (auto split: option.splits)
  ultimately show ?thesis by blast
qed

lemma stepRelation_keepsSignal: "stepRelation keepsSignal"
  unfolding stepRelation_def keepsSignal_def
  by (auto simp: transitionWhile_def acceptOtherRequest_def abortInProgress_def log_def
      setActiveTransition_def clearActiveTransition_def mutate_def deleteKnown_def
      restoreSnapshot_def split: option.splits)

lemma stepRelation_keepsChain: "stepRelation keepsChain"
  unfolding stepRelation_def keepsChain_def
  by (auto simp: transitionWhile_def acceptOtherRequest_def abortInProgress_def log_def
      setActiveTransition_def clearActiveTransition_def mutate_def deleteKnown_def
      restoreSnapshot_def split: option.splits)

section \<open>Registered sub-operations are awaited\<close>


lemma steps_success:
  assumes "steps fs r = (None, r')"
    and "\<And>f r r'. f \<in> set fs \<Longrightarrow> P r \<Longrightarrow> f r = (None, r') \<Longrightarrow> P r'"
    and "P r"
  shows "P r'"
  using assms
proof (induction fs arbitrary: r)
  case Nil
  then show ?case by simp
next
  case (Cons f fs)
  from Cons.prems(1) obtain r1 where f: "f r = (None, r1)" and rest: "steps fs r1 = (None, r')"
    unfolding steps_Cons_None by blast
  have "P r1" using Cons.prems(2)[of f r r1] Cons.prems(3) f by simp
  then show ?case using Cons.IH[OF rest] Cons.prems(2) by auto
qed

lemma pending_weaken: "pendingOrAwaited X r \<Longrightarrow> X \<subseteq> Y \<Longrightarrow> pendingOrAwaited Y r"
  unfolding pendingOrAwaited_def by blast

lemma pending_transitionWhile:
  "transitionWhile p r = (x, r') \<Longrightarrow> pendingOrAwaited X r \<Longrightarrow> pendingOrAwaited X r'"
  unfolding pendingOrAwaited_def transitionWhile_def by (auto split: if_splits)

lemma pending_same:
  "promises r' = promises r \<Longrightarrow> trace r' = trace r @ ext \<Longrightarrow> (\<And>p. Registered p \<notin> set ext)
     \<Longrightarrow> pendingOrAwaited X r \<Longrightarrow> pendingOrAwaited X r'"
  unfolding pendingOrAwaited_def by auto

lemma pending_acceptOtherRequest:
  "acceptOtherRequest r = (x, r') \<Longrightarrow> pendingOrAwaited X r \<Longrightarrow> pendingOrAwaited X r'"
  by (rule pending_same[where ext = "[]"]) (auto dest: acceptOtherRequest_frame)

lemma pending_log:
  "log a r = (x, r') \<Longrightarrow> (\<And>p. a \<noteq> Registered p) \<Longrightarrow> pendingOrAwaited X r \<Longrightarrow> pendingOrAwaited X r'"
  by (rule pending_same[where ext = "[a]"]) (auto simp: log_def)

lemma pending_applyEffect:
  assumes "applyEffect c eff r = (x, r')" "pendingOrAwaited X r"
  shows "pendingOrAwaited X r'"
proof (rule steps_preserves[where P = "pendingOrAwaited X", OF _ assms(2) assms(1)[unfolded applyEffect_def]])
  fix f r0 y r1
  assume f: "f \<in> set ((if c then map transitionWhile (registers eff) else [])
            @ [onlyIf (aborts eff) acceptOtherRequest, throwIf (throws eff)])"
    and p: "pendingOrAwaited X r0" and run: "f r0 = (y, r1)"
  from f consider q where "f = transitionWhile q" | "f = onlyIf (aborts eff) acceptOtherRequest"
    | "f = throwIf (throws eff)" by (auto split: if_splits)
  then show "pendingOrAwaited X r1"
  proof cases
    case 1 then show ?thesis using pending_transitionWhile run p by blast
  next
    case 2
    then show ?thesis using pending_acceptOtherRequest run p
      by (auto simp: onlyIf_def skip_def split: if_splits)
  next
    case 3 then show ?thesis using run p by (auto simp: throwIf_def)
  qed
qed

lemma pending_dispatchEvent:
  assumes "dispatchEvent env tgt ev r = (x, r')" "pendingOrAwaited X r"
  shows "pendingOrAwaited X r'"
proof (rule steps_preserves[where P = "pendingOrAwaited X", OF _ assms(2) assms(1)[unfolded dispatchEvent_def]])
  fix f r0 y r1
  assume "f \<in> set [log (Dispatched tgt ev), applyEffect (carriesTransitionWhile ev) (listeners env tgt ev)]"
    and p: "pendingOrAwaited X r0" and run: "f r0 = (y, r1)"
  then consider "f = log (Dispatched tgt ev)"
    | "f = applyEffect (carriesTransitionWhile ev) (listeners env tgt ev)" by auto
  then show "pendingOrAwaited X r1"
  proof cases
    case 1 then show ?thesis using pending_log[of "Dispatched tgt ev"] run p by auto
  next
    case 2 then show ?thesis using pending_applyEffect run p by blast
  qed
qed

lemma pending_awaitPromise:
  assumes "awaitPromise env p r = (None, r')" "pendingOrAwaited (insert p X) r"
  shows "pendingOrAwaited X r'"
proof -
  from assms(1) obtain r1 where a: "applyEffect True (subOperation env p) r = (None, r1)"
    and l: "log (Awaited p) r1 = (None, r')"
    unfolding awaitPromise_def steps_Cons_None by auto
  have "pendingOrAwaited (insert p X) r1" by (rule pending_applyEffect[OF a assms(2)])
  then show ?thesis using l unfolding pendingOrAwaited_def log_def by auto
qed

lemma pending_promiseAll:
  "promiseAll env ps r = (None, r') \<Longrightarrow> pendingOrAwaited (set ps \<union> X) r \<Longrightarrow> pendingOrAwaited X r'"
proof (induction ps arbitrary: r)
  case Nil
  then show ?case by (simp add: promiseAll_def)
next
  case (Cons p ps)
  from Cons.prems(1) obtain r1 where a: "awaitPromise env p r = (None, r1)"
    and rest: "promiseAll env ps r1 = (None, r')"
    unfolding promiseAll_def list.map steps_Cons_None by blast
  have "pendingOrAwaited (insert p (set ps \<union> X)) r" using Cons.prems(2) by simp
  then have "pendingOrAwaited (set ps \<union> X) r1" by (rule pending_awaitPromise[OF a])
  then show ?case by (rule Cons.IH[OF rest])
qed

lemma pending_awaitCaptured:
  assumes "awaitCaptured env r = (None, r')" "pendingOrAwaited {} r"
  shows "pendingOrAwaited {} r'"
proof (cases "promises r = []")
  case True
  with assms show ?thesis by (simp add: awaitCaptured_def)
next
  case False
  with assms(1) have p: "promiseAll env (promises r) (r\<lparr>promises := []\<rparr>) = (None, r')"
    by (simp add: awaitCaptured_def Let_def)
  have "pendingOrAwaited (set (promises r) \<union> {}) (r\<lparr>promises := []\<rparr>)"
    using assms(2) unfolding pendingOrAwaited_def by auto
  then show ?thesis by (rule pending_promiseAll[OF p])
qed

lemma pending_sweepStep_promises:
  assumes "disposeEach env ks r = (x, r')"
  shows "promises r' = promises r \<and> (\<exists>ext. trace r' = trace r @ ext \<and> (\<forall>p. Registered p \<notin> set ext))"
  using assms
proof (induction ks arbitrary: r)
  case Nil
  then show ?case by simp
next
  case (Cons k ks)
  show ?case
  proof (cases "findIndex (\<lambda>entry. key entry = key k) (entries (nav r)) \<noteq> -1")
    case True
    with Cons.prems have "disposeEach env ks r = (x, r')" by simp
    then show ?thesis by (rule Cons.IH)
  next
    case False
    obtain y r1 where st: "steps [deleteKnown k, dispatchEvent env (OnEntry k) (Dispose k),
                        dispatchEvent env OnNavigator (Dispose k)] r = (y, r1)"
      by (cases "steps [deleteKnown k, dispatchEvent env (OnEntry k) (Dispose k),
                        dispatchEvent env OnNavigator (Dispose k)] r")
    have r1: "promises r1 = promises r \<and> (\<exists>ext. trace r1 = trace r @ ext \<and> (\<forall>p. Registered p \<notin> set ext))"
      using st by (auto simp: deleteKnown_def dispatch_Dispose split: option.splits)
    show ?thesis
    proof (cases y)
      case (Some e)
      with st False Cons.prems have "r' = r1" by simp
      with r1 show ?thesis by simp
    next
      case None
      with st False Cons.prems have "disposeEach env ks r1 = (x, r')" by simp
      then have "promises r' = promises r1 \<and> (\<exists>ext. trace r' = trace r1 @ ext \<and> (\<forall>p. Registered p \<notin> set ext))"
        by (rule Cons.IH)
      with r1 show ?thesis by auto
    qed
  qed
qed

lemma dispose_promises:
  assumes "dispose env r = (x, r')"
  shows "promises r' = promises r" and "pendingOrAwaited X r \<Longrightarrow> pendingOrAwaited X r'"
proof -
  from pending_sweepStep_promises[OF assms[unfolded dispose_def]]
  obtain ext where e: "promises r' = promises r" "trace r' = trace r @ ext" "\<And>p. Registered p \<notin> set ext"
    by blast
  show "promises r' = promises r" by (rule e(1))
  show "pendingOrAwaited X r \<Longrightarrow> pendingOrAwaited X r'"
    by (rule pending_same[OF e(1) e(2)]) (use e(3) in auto)
qed

lemma pending_protocol_member:
  assumes f: "f \<in> set (protocol navigationType entry cur currentTransition env)"
    and run: "f r = (None, r')" and p: "pendingOrAwaited {} r"
  shows "pendingOrAwaited {} r'"
proof -
  have nf: "\<And>r x r'. (case cur of Some c \<Rightarrow> dispatchEvent env (OnEntry c) Navigatefrom | None \<Rightarrow> skip) r
      = (x, r') \<Longrightarrow> pendingOrAwaited {} r \<Longrightarrow> pendingOrAwaited {} r'"
    using pending_dispatchEvent by (cases cur) (auto simp: skip_def)
  from f consider "f = applyEffect True (fst (createAppHistoryTransition env))"
    | "f = checkAborted"
    | "f = onlyIf (isString navigationType) (setActiveTransition currentTransition)"
    | "f = onlyIf (isString navigationType \<or> navigationType = Rollback)
         (case cur of Some c \<Rightarrow> dispatchEvent env (OnEntry c) Navigatefrom | None \<Rightarrow> skip)"
    | tgt ev c where "f = onlyIf c (dispatchEvent env tgt ev)"
    | "f = mutate (snd (createAppHistoryTransition env))"
    | "f = dispose env"
    | "f = awaitCaptured env"
    unfolding protocol_def by auto
  then show ?thesis
  proof cases
    case 1 then show ?thesis using pending_applyEffect run p by blast
  next
    case 2 then show ?thesis using run p by (auto simp: checkAborted_def split: if_splits)
  next
    case 3
    then show ?thesis using run p
      by (auto simp: onlyIf_def skip_def setActiveTransition_def pendingOrAwaited_def split: if_splits)
  next
    case 4 then show ?thesis using nf run p by (auto simp: onlyIf_def skip_def split: if_splits)
  next
    case 5
    then show ?thesis using pending_dispatchEvent run p
      by (auto simp: onlyIf_def skip_def split: if_splits)
  next
    case 6
    then show ?thesis using run p by (auto simp: mutate_def pendingOrAwaited_def)
  next
    case 7 then show ?thesis using dispose_promises(2) run p by blast
  next
    case 8 then show ?thesis using pending_awaitCaptured run p by blast
  qed
qed

lemma awaitPromise_no_promises:
  assumes "registers (subOperation env p) = []" "awaitPromise env p r = (x, r')"
  shows "promises r' = promises r"
  using assms
  by (auto simp: awaitPromise_def applyEffect_def onlyIf_def skip_def acceptOtherRequest_def
      throwIf_def log_def split: if_splits option.splits)

lemma promiseAll_no_promises:
  assumes "\<And>p. registers (subOperation env p) = []"
  shows "promiseAll env ps r = (x, r') \<Longrightarrow> promises r' = promises r"
proof (induction ps arbitrary: r)
  case Nil
  then show ?case by (simp add: promiseAll_def)
next
  case (Cons p ps)
  obtain y r1 where a: "awaitPromise env p r = (y, r1)" by (cases "awaitPromise env p r")
  have p1: "promises r1 = promises r" by (rule awaitPromise_no_promises[OF assms a])
  show ?case
  proof (cases y)
    case None
    with a Cons.prems have "promiseAll env ps r1 = (x, r')" by (simp add: promiseAll_def)
    then show ?thesis using Cons.IH p1 by simp
  next
    case (Some e)
    with a Cons.prems have "r' = r1" by (simp add: promiseAll_def)
    with p1 show ?thesis by simp
  qed
qed

lemma awaitCaptured_no_promises:
  assumes "\<And>p. registers (subOperation env p) = []" "awaitCaptured env r = (x, r')"
  shows "promises r' = []"
proof (cases "promises r = []")
  case True
  with assms(2) show ?thesis by (simp add: awaitCaptured_def)
next
  case False
  with assms(2) have "promiseAll env (promises r) (r\<lparr>promises := []\<rparr>) = (x, r')"
    by (simp add: awaitCaptured_def Let_def)
  then show ?thesis using promiseAll_no_promises[OF assms(1)] by fastforce
qed

section \<open>A transition that returns\<close>


lemma transition_success:
  assumes "transition givenNavigationType entry (Some t) options env s = (Inr e, s', acts)"
  shows "e = entry \<and>
     (\<exists>r1 r'. completeTransition givenNavigationType entry options (current s)
                 (t\<lparr>tRollback := createRollback (nav (newAbortController s))\<rparr>) env
                 (newAbortController s) = (None, r1)
        \<and> finallyBlock (t\<lparr>tRollback := createRollback (nav (newAbortController s))\<rparr>) env r1 = (None, r')
        \<and> nav r' = s' \<and> trace r' = acts)"
  using assms unfolding transition_Some tryCatchFinally_def
  by (auto split: prod.splits option.splits)

lemma finallyBlock_success:
  assumes "finallyBlock ct env r = (None, r')"
  shows "promises r' = promises r" and "pendingOrAwaited X r \<Longrightarrow> pendingOrAwaited X r'"
proof -
  from assms obtain r1 where d: "dispose env r = (None, r1)"
    and c: "clearActiveTransition ct r1 = (None, r')"
    unfolding finallyBlock_def steps_Cons_None by auto
  have c1: "promises r' = promises r1" "trace r' = trace r1"
    using c by (auto simp: clearActiveTransition_def split: if_splits)
  show "promises r' = promises r" using dispose_promises(1)[OF d] c1 by simp
  show "pendingOrAwaited X r \<Longrightarrow> pendingOrAwaited X r'"
    using dispose_promises(2)[OF d, of X] c1 unfolding pendingOrAwaited_def by simp
qed

lemma protocol_last:
  "protocol navigationType entry cur currentTransition env =
     butlast (protocol navigationType entry cur currentTransition env) @ [awaitCaptured env]"
  by (simp add: protocol_def)

lemma completeTransition_success_pending:
  assumes quiet: "\<And>p. registers (subOperation env p) = []"
    and run: "completeTransition givenNavigationType entry options cur ct env r = (None, r')"
    and start: "trace r = []" "promises r = []"
  shows "pendingOrAwaited {} r' \<and> promises r' = []"
proof (cases "isRestore givenNavigationType options")
  case True
  with run have "r' = restoreSnapshot (the options) r" by (simp add: completeTransition_def)
  then show ?thesis using start by (simp add: restoreSnapshot_def pendingOrAwaited_def)
next
  case False
  with run have st: "steps (protocol givenNavigationType entry cur ct env) r = (None, r')"
    by (simp add: completeTransition_def)
  have p0: "pendingOrAwaited {} r" using start by (simp add: pendingOrAwaited_def)
  have 1: "pendingOrAwaited {} r'"
    by (rule steps_success[where P = "pendingOrAwaited {}", OF st _ p0])
       (rule pending_protocol_member)
  from st have "steps (butlast (protocol givenNavigationType entry cur ct env) @ [awaitCaptured env]) r
      = (None, r')"
    using protocol_last by metis
  then obtain rf where "awaitCaptured env rf = (None, r')"
    by (auto simp: steps_append split: prod.splits option.splits)
  then have 2: "promises r' = []" by (rule awaitCaptured_no_promises[OF quiet])
  from 1 2 show ?thesis by simp
qed

lemma registered_awaited:
  assumes quiet: "\<And>p. registers (subOperation env p) = []"
    and run: "transition givenNavigationType entry (Some t) options env s = (Inr e, s', acts)"
  shows "\<forall>p. Registered p \<in> set acts \<longrightarrow> Awaited p \<in> set acts"
proof -
  from transition_success[OF run] obtain r1 r' where
    c: "completeTransition givenNavigationType entry options (current s)
                 (t\<lparr>tRollback := createRollback (nav (newAbortController s))\<rparr>) env
                 (newAbortController s) = (None, r1)"
    and f: "finallyBlock (t\<lparr>tRollback := createRollback (nav (newAbortController s))\<rparr>) env r1 = (None, r')"
    and r': "trace r' = acts" by blast
  have "pendingOrAwaited {} r1 \<and> promises r1 = []"
    by (rule completeTransition_success_pending[OF quiet c]) (simp_all add: newAbortController_def)
  then have "pendingOrAwaited {} r'" "promises r' = []"
    using finallyBlock_success[OF f] by simp_all
  then show ?thesis using r' unfolding pendingOrAwaited_def by auto
qed

lemma sweepStep_trace: "sweepStep r r' \<Longrightarrow> set (trace r) \<subseteq> set (trace r')"
  unfolding sweepStep_def by auto

lemma dispatchEvent_logged:
  assumes "dispatchEvent env tgt ev r = (x, r')"
  shows "Dispatched tgt ev \<in> set (trace r')"
proof -
  obtain y r1 where a: "applyEffect (carriesTransitionWhile ev) (listeners env tgt ev)
      (r\<lparr>trace := trace r @ [Dispatched tgt ev]\<rparr>) = (y, r1)"
    by (cases "applyEffect (carriesTransitionWhile ev) (listeners env tgt ev)
      (r\<lparr>trace := trace r @ [Dispatched tgt ev]\<rparr>)")
  have "r' = r1" using assms a by (auto simp: dispatchEvent_def log_def split: option.splits)
  moreover have "set (trace (r\<lparr>trace := trace r @ [Dispatched tgt ev]\<rparr>)) \<subseteq> set (trace r1)"
    using applyEffect_quiet[OF a] unfolding quietStep_def by auto
  ultimately show ?thesis by auto
qed

lemma success_after_mutation:
  assumes run: "transition givenNavigationType entry (Some t) options env s = (Inr e, s', acts)"
    and proto: "\<not> isRestore givenNavigationType options"
  shows "Mutated \<in> set acts
     \<and> (sameDocument entry \<longrightarrow> Dispatched OnNavigator CurrentChange \<in> set acts)
     \<and> entries s' = resEntries (snd (createAppHistoryTransition env))
     \<and> currentIndex s' = resIndex (snd (createAppHistoryTransition env))"
proof -
  let ?ct = "t\<lparr>tRollback := createRollback (nav (newAbortController s))\<rparr>"
  let ?m = "snd (createAppHistoryTransition env)"
  from transition_success[OF run] obtain r1 r' where
    c: "completeTransition givenNavigationType entry options (current s) ?ct env
                 (newAbortController s) = (None, r1)"
    and f: "finallyBlock ?ct env r1 = (None, r')"
    and r': "nav r' = s'" "trace r' = acts" by blast
  from c proto have "steps (protocolBefore givenNavigationType (current s) ?ct env
       @ mutate ?m # protocolAfter givenNavigationType entry env) (newAbortController s) = (None, r1)"
    by (simp add: completeTransition_def protocol_split)
  then obtain rb rm where m: "mutate ?m rb = (None, rm)"
    and a: "steps (protocolAfter givenNavigationType entry env) rm = (None, r1)"
    by (auto simp: steps_append mutate_def split: prod.splits option.splits)
  have rm: "Mutated \<in> set (trace rm)" "entries (nav rm) = resEntries ?m"
    "currentIndex (nav rm) = resIndex ?m"
    using m by (auto simp: mutate_def)
  have sw: "sweepStep rm r1" by (rule protocolAfter_sweep[OF a])
  have sf: "sweepStep r1 r'" by (rule finallyBlock_sweep[OF f])
  have fin: "sweepStep rm r'" by (rule sweepStep_trans[OF sw sf])
  have 1: "Mutated \<in> set acts" using sweepStep_trace[OF fin] rm(1) r' by auto
  have 2: "entries s' = resEntries ?m" "currentIndex s' = resIndex ?m"
    using fin rm r' by (auto simp: sweepStep_def)
  have 3: "sameDocument entry \<longrightarrow> Dispatched OnNavigator CurrentChange \<in> set acts"
  proof
    assume sd: "sameDocument entry"
    from a obtain r3 where
      d: "onlyIf (sameDocument entry) (dispatchEvent env OnNavigator CurrentChange) rm = (None, r3)"
      and rest: "steps (tl (protocolAfter givenNavigationType entry env)) r3 = (None, r1)"
      unfolding protocolAfter_def list.sel steps_Cons_None by blast
    from d sd have "dispatchEvent env OnNavigator CurrentChange rm = (None, r3)"
      by (simp add: onlyIf_def)
    then have in3: "Dispatched OnNavigator CurrentChange \<in> set (trace r3)"
      by (rule dispatchEvent_logged)
    have "set (tl (protocolAfter givenNavigationType entry env))
        \<subseteq> set (protocolAfter givenNavigationType entry env)"
      by (simp add: protocolAfter_def)
    then have "sweepStep r3 r1" using protocolAfter_part_sweep rest by blast
    then have "sweepStep r3 r'" using sf sweepStep_trans by blast
    then show "Dispatched OnNavigator CurrentChange \<in> set acts"
      using sweepStep_trace in3 r' by blast
  qed
  from 1 2 3 show ?thesis by simp
qed

section \<open>The waiting loop of a transition\<close>










section \<open>The two rounds of awaiting\<close>


lemma isString_not_restore: "isString navigationType \<Longrightarrow> \<not> isRestore navigationType options"
  by (cases navigationType) (simp_all add: isString_def isRestore_def)

lemma protocol_rounds:
  "protocol navigationType entry cur currentTransition env =
     take 10 (protocol navigationType entry cur currentTransition env)
     @ [awaitCaptured env,
        onlyIf (isString navigationType) (dispatchEvent env (OnEntry entry) Finish),
        onlyIf (isString navigationType) (dispatchEvent env OnNavigator Navigatesuccess),
        awaitCaptured env]"
  by (simp add: protocol_def)

lemma dispatchEvent_trace:
  assumes "dispatchEvent env tgt ev r = (x, r')"
  shows "\<exists>ext. trace r' = trace r @ Dispatched tgt ev # ext"
proof -
  obtain y r1 where a: "applyEffect (carriesTransitionWhile ev) (listeners env tgt ev)
      (r\<lparr>trace := trace r @ [Dispatched tgt ev]\<rparr>) = (y, r1)"
    by (cases "applyEffect (carriesTransitionWhile ev) (listeners env tgt ev)
      (r\<lparr>trace := trace r @ [Dispatched tgt ev]\<rparr>)")
  have "r' = r1" using assms a by (auto simp: dispatchEvent_def log_def split: option.splits)
  moreover have "\<exists>ext. trace r1 = trace (r\<lparr>trace := trace r @ [Dispatched tgt ev]\<rparr>) @ ext"
    using applyEffect_quiet[OF a] unfolding quietStep_def by auto
  ultimately show ?thesis by auto
qed

lemma sweepStep_extends: "sweepStep r r' \<Longrightarrow> \<exists>ext. trace r' = trace r @ ext"
  unfolding sweepStep_def by auto

lemma finish_split:
  assumes run: "transition givenNavigationType entry (Some t) options env s = (Inr e, s', acts)"
    and str: "isString givenNavigationType"
  shows "\<exists>ra rb post.
       steps (take 10 (protocol givenNavigationType entry (current s)
                (t\<lparr>tRollback := createRollback (nav (newAbortController s))\<rparr>) env))
             (newAbortController s) = (None, ra)
     \<and> awaitCaptured env ra = (None, rb)
     \<and> acts = trace rb @ Dispatched (OnEntry entry) Finish # post
     \<and> Dispatched OnNavigator Navigatesuccess \<in> set post"
proof -
  let ?ct = "t\<lparr>tRollback := createRollback (nav (newAbortController s))\<rparr>"
  let ?r0 = "newAbortController s"
  let ?p = "protocol givenNavigationType entry (current s) ?ct env"
  from transition_success[OF run] obtain r1 r' where
    c: "completeTransition givenNavigationType entry options (current s) ?ct env ?r0 = (None, r1)"
    and f: "finallyBlock ?ct env r1 = (None, r')"
    and r': "trace r' = acts" by blast
  from c isString_not_restore[OF str] have "steps ?p ?r0 = (None, r1)"
    by (simp add: completeTransition_def)
  then have "steps (take 10 ?p
     @ [awaitCaptured env,
        onlyIf (isString givenNavigationType) (dispatchEvent env (OnEntry entry) Finish),
        onlyIf (isString givenNavigationType) (dispatchEvent env OnNavigator Navigatesuccess),
        awaitCaptured env]) ?r0 = (None, r1)"
    by (subst (asm) protocol_rounds)
  then obtain ra where front: "steps (take 10 ?p) ?r0 = (None, ra)"
    and rest: "steps [awaitCaptured env,
        onlyIf (isString givenNavigationType) (dispatchEvent env (OnEntry entry) Finish),
        onlyIf (isString givenNavigationType) (dispatchEvent env OnNavigator Navigatesuccess),
        awaitCaptured env] ra = (None, r1)"
    by (auto simp: steps_append split: prod.splits option.splits)
  from rest obtain rb rc rd where
    w1: "awaitCaptured env ra = (None, rb)"
    and fi: "onlyIf (isString givenNavigationType) (dispatchEvent env (OnEntry entry) Finish) rb = (None, rc)"
    and ns: "onlyIf (isString givenNavigationType) (dispatchEvent env OnNavigator Navigatesuccess) rc = (None, rd)"
    and w2: "awaitCaptured env rd = (None, r1)"
    unfolding steps_Cons_None by auto
  from fi str have "dispatchEvent env (OnEntry entry) Finish rb = (None, rc)"
    by (simp add: onlyIf_def)
  from dispatchEvent_trace[OF this] obtain e1 where
    e1: "trace rc = trace rb @ Dispatched (OnEntry entry) Finish # e1" by blast
  from ns str have "dispatchEvent env OnNavigator Navigatesuccess rc = (None, rd)"
    by (simp add: onlyIf_def)
  from dispatchEvent_trace[OF this] obtain e2 where
    e2: "trace rd = trace rc @ Dispatched OnNavigator Navigatesuccess # e2" by blast
  have "quietStep rd r1" by (rule awaitCaptured_quiet[OF w2])
  then obtain e3 where e3: "trace r1 = trace rd @ e3" unfolding quietStep_def by auto
  from sweepStep_extends[OF finallyBlock_sweep[OF f]] obtain e4 where
    e4: "trace r' = trace r1 @ e4" by blast
  have a: "acts = trace rb @ Dispatched (OnEntry entry) Finish
      # (e1 @ Dispatched OnNavigator Navigatesuccess # e2 @ e3 @ e4)"
    using e1 e2 e3 e4 r' by simp
  have b: "Dispatched OnNavigator Navigatesuccess
      \<in> set (e1 @ Dispatched OnNavigator Navigatesuccess # e2 @ e3 @ e4)" by simp
  from front w1 a b show ?thesis by blast
qed

lemma finish_dispatched:
  assumes "transition givenNavigationType entry (Some t) options env s = (Inr e, s', acts)"
    and "isString givenNavigationType"
  shows "Dispatched (OnEntry entry) Finish \<in> set acts"
    and "Dispatched OnNavigator Navigatesuccess \<in> set acts"
proof -
  from finish_split[OF assms] obtain pre post where
    "acts = pre @ Dispatched (OnEntry entry) Finish # post"
    "Dispatched OnNavigator Navigatesuccess \<in> set post" by blast
  then show "Dispatched (OnEntry entry) Finish \<in> set acts"
    and "Dispatched OnNavigator Navigatesuccess \<in> set acts" by simp_all
qed


lemma immediateTransition_success:
  assumes "immediateTransition givenNavigationType entry t options env s = (Inr e, s', acts)"
  shows "\<exists>s2. transition givenNavigationType entry (Some t) options env
                 (s\<lparr>transitionInProgressCount := transitionInProgressCount s + 1\<rparr>) = (Inr e, s2, acts)
     \<and> s' = s2\<lparr>transitionInProgressCount := transitionInProgressCount s2 - 1\<rparr>"
  using assms unfolding immediateTransition_def Let_def
  by (auto split: if_splits prod.splits)

section \<open>The functions as executions\<close>

text \<open>
  A run of \<^verbatim>\<open>#transition\<close> is a \<open>work\<close> step, and the callback of a chain link is an
  \<open>enter\<close> step, then either a \<open>multiple\<close> step or a \<open>work\<close> and a \<open>leave\<close> step.
\<close>

lemma transition_work:
  assumes "transition givenNavigationType entry t options env s = (result, s', acts)"
  shows "transitionInProgressCount s' = transitionInProgressCount s \<and> chain s' = chain s"
proof (cases t)
  case None
  with assms show ?thesis by simp
next
  case (Some t')
  from transition_stepRelation[OF stepRelation_keepsChain assms[unfolded Some]]
  obtain r' where "keepsChain (newAbortController s) r'" "nav r' = s'" by blast
  then show ?thesis by (simp add: keepsChain_def newAbortController_def)
qed

lemma transition_execution:
  "transition givenNavigationType entry t options env s = (result, s', acts) \<Longrightarrow> execution s s'"
  using transition_work execution.work by blast

lemma setStatus_twice:
  "k < length links \<Longrightarrow> setStatus k st (setStatus k st0 links) = setStatus k st links"
  by (simp add: setStatus_def)

lemma linkCallback_execution:
  assumes link: "k < length (chain s)" "linkStatus (chain s ! k) = Pending"
      "k = 0 \<or> isSettled (linkStatus (chain s ! (k - 1)))"
    and run: "linkCallback k env s = (result, s', acts)"
  shows "\<exists>a b. execution s a \<and> execution a b
      \<and> execution b (s'\<lparr>chain := setStatus k (if transitionInProgressCount s > 0
                                                then FailedMultiple else Settled) (chain s')\<rparr>)"
proof -
  let ?a = "s\<lparr>transitionInProgressCount := transitionInProgressCount s + 1,
               chain := setStatus k Running (chain s)\<rparr>"
  let ?l = "chain s ! k"
  have ea: "execution s ?a" by (rule execution.enter[OF link])
  have ka: "k < length (chain ?a)" "linkStatus (chain ?a ! k) = Running"
    using link(1) by (simp_all add: setStatus_def)
  show ?thesis
  proof (cases "transitionInProgressCount s > 0")
    case True
    then have "transitionInProgressCount ?a > 1" by simp
    from execution.multiple[OF ka this]
    have m: "execution ?a (s\<lparr>chain := setStatus k FailedMultiple (chain s)\<rparr>)"
      by (simp add: setStatus_twice link(1))
    from run True have s': "s' = s"
      by (simp add: linkCallback_def immediateTransition_def Let_def)
    have w: "execution (s\<lparr>chain := setStatus k FailedMultiple (chain s)\<rparr>)
                       (s\<lparr>chain := setStatus k FailedMultiple (chain s)\<rparr>)"
      by (rule execution.work) simp_all
    from ea m w s' True show ?thesis by auto
  next
    case False
    let ?s1 = "s\<lparr>transitionInProgressCount := transitionInProgressCount s + 1\<rparr>"
    obtain res s2 acts2 where tr: "transition (linkType ?l) (linkEntry ?l) (Some (linkTransition ?l))
        (linkOptions ?l) env ?s1 = (res, s2, acts2)"
      by (cases "transition (linkType ?l) (linkEntry ?l) (Some (linkTransition ?l))
        (linkOptions ?l) env ?s1")
    from run False tr have s': "s' = s2\<lparr>transitionInProgressCount := transitionInProgressCount s2 - 1\<rparr>"
      by (simp add: linkCallback_def immediateTransition_def Let_def)
    from transition_work[OF tr] have fr: "transitionInProgressCount s2 = transitionInProgressCount s + 1"
      "chain s2 = chain s" by simp_all
    let ?b = "s2\<lparr>chain := setStatus k Running (chain s2)\<rparr>"
    have w: "execution ?a ?b" by (rule execution.work) (simp_all add: fr)
    have kb: "k < length (chain ?b)" "linkStatus (chain ?b ! k) = Running"
      using link(1) fr by (simp_all add: setStatus_def)
    from execution.leave[OF kb]
    have "execution ?b (s'\<lparr>chain := setStatus k Settled (chain s')\<rparr>)"
      by (simp add: s' setStatus_twice link(1) fr)
    with ea w False show ?thesis by auto
  qed
qed

lemma next_link_idle:
  assumes "reachable s" "k < length (chain s)" "linkStatus (chain s ! k) = Pending"
    "k = 0 \<or> isSettled (linkStatus (chain s ! (k - 1)))"
  shows "transitionInProgressCount s = 0"
proof -
  have inv: "chainInvariant s" by (rule reachable_chainInvariant[OF assms(1)])
  have "\<not> (\<exists>j < length (chain s). linkStatus (chain s ! j) = Running)"
  proof
    assume "\<exists>j < length (chain s). linkStatus (chain s ! j) = Running"
    then obtain j where j: "j < length (chain s)" "linkStatus (chain s ! j) = Running" by blast
    consider "j < k" | "j = k" | "k < j" by linarith
    then show False
    proof cases
      case 1
      then have k0: "k \<noteq> 0" by simp
      with assms(4) have st: "isSettled (linkStatus (chain s ! (k - 1)))" by simp
      show False
      proof (cases "j = k - 1")
        case True
        with st j show False by (simp add: isSettled_def)
      next
        case False
        with 1 have "j < k - 1" by simp
        moreover have "k - 1 < length (chain s)" using assms(2) by simp
        moreover have "linkStatus (chain s ! (k - 1)) \<noteq> Pending" using st by (auto simp: isSettled_def)
        ultimately have "linkStatus (chain s ! j) = Settled" using shapeD[OF inv] by blast
        with j show False by simp
      qed
    next
      case 2
      with j assms(3) show False by simp
    next
      case 3
      have "linkStatus (chain s ! j) \<noteq> Pending" using j by simp
      from shapeD[OF inv 3 j(1) this] assms(3) show False by simp
    qed
  qed
  then show ?thesis using countD[OF inv] by simp
qed

lemma linkCallback_reachable:
  assumes "reachable s" "k < length (chain s)" "linkStatus (chain s ! k) = Pending"
    "k = 0 \<or> isSettled (linkStatus (chain s ! (k - 1)))"
    and run: "linkCallback k env s = (result, s', acts)"
  shows "reachable (s'\<lparr>chain := setStatus k Settled (chain s')\<rparr>)
     \<and> transitionInProgressCount s' = 0
     \<and> linkCallback k env s =
         (case transition (linkType (chain s ! k)) (linkEntry (chain s ! k))
                 (Some (linkTransition (chain s ! k))) (linkOptions (chain s ! k)) env
                 (s\<lparr>transitionInProgressCount := 1\<rparr>) of
            (res, s2, acts2) \<Rightarrow> (res, s2\<lparr>transitionInProgressCount := 0\<rparr>, acts2))"
proof -
  have idle: "transitionInProgressCount s = 0" by (rule next_link_idle[OF assms(1-4)])
  from linkCallback_execution[OF assms(2-4) run] idle obtain a b where
    "execution s a" "execution a b" "execution b (s'\<lparr>chain := setStatus k Settled (chain s')\<rparr>)"
    by auto
  then have 1: "reachable (s'\<lparr>chain := setStatus k Settled (chain s')\<rparr>)"
    using assms(1) reachable.after by blast
  let ?l = "chain s ! k"
  obtain res s2 acts2 where tr: "transition (linkType ?l) (linkEntry ?l) (Some (linkTransition ?l))
        (linkOptions ?l) env (s\<lparr>transitionInProgressCount := 1\<rparr>) = (res, s2, acts2)"
    by (cases "transition (linkType ?l) (linkEntry ?l) (Some (linkTransition ?l))
        (linkOptions ?l) env (s\<lparr>transitionInProgressCount := 1\<rparr>)")
  from transition_work[OF tr] have c2: "transitionInProgressCount s2 = 1" by simp
  have 3: "linkCallback k env s = (res, s2\<lparr>transitionInProgressCount := 0\<rparr>, acts2)"
    using idle tr c2 by (simp add: linkCallback_def immediateTransition_def Let_def)
  with run have 2: "transitionInProgressCount s' = 0" by auto
  from 1 2 3 tr show ?thesis by simp
qed


text \<open>Every public operation that is accepted, and every rollback queued, is an \<open>accept\<close> step.\<close>

lemma public_operation_execution:
  assumes "navigate u options fresh s = Inr (s', res) \<or> back_op options fresh s = Inr (s', res)
     \<or> forward options fresh s = Inr (s', res) \<or> goTo k options fresh s = Inr (s', res)
     \<or> reload options fresh s = Inr (s', res) \<or> updateCurrent options fresh s = Inr (s', res)
     \<or> rollbackViaPushEntry snap options fresh s = Inr (s', res)"
  shows "execution s s'"
proof -
  from assms have "\<exists>navigationType entry t opts. pushEntry navigationType entry t opts s = Inr (s', res)"
    unfolding navigate_def back_op_def forward_def goTo_def reload_def updateCurrent_def
      rollbackViaPushEntry_def Let_def
    by (auto split: if_splits option.splits prod.splits)
  then show ?thesis using execution.accept by blast
qed
section \<open>Synchronous validation\<close>


lemma nthOpt_Some_iff: "(nthOpt xs i \<noteq> None) \<longleftrightarrow> (0 \<le> i \<and> i < int (length xs))"
  by (simp add: nthOpt_def)

lemma nthOpt_in_set: "nthOpt xs i = Some x \<Longrightarrow> x \<in> set xs"
  by (auto simp: nthOpt_def split: if_splits)

lemma current_in_entries: "current s = Some e \<Longrightarrow> e \<in> set (entries s)"
  by (auto simp: current_def dest: nthOpt_in_set split: if_splits)

lemma pushEntry_fresh:
  assumes "entryId entry \<notin> entryId ` set (entries s)"
  shows "pushEntry ty entry t opts s = Inr (commitTransition ty entry t opts s)"
proof -
  have "Some entry \<noteq> current s"
    using assms current_in_entries by (metis imageI)
  moreover have "\<not> (\<exists>x \<in> set (entries s). entryId x = entryId entry)"
    using assms by (metis imageI)
  then have "\<not> findIndex (\<lambda>existing. entryId existing = entryId entry) (entries s) > -1"
    by (simp only: findIndex_found) simp
  ultimately show ?thesis by (simp add: pushEntry_def)
qed

lemma pushEntry_existing:
  assumes "existing \<in> set (entries s)" "entryId existing = entryId entry"
  shows "pushEntry ty entry t opts s = Inl (InvalidStateError [])"
proof -
  have "findIndex (\<lambda>existing. entryId existing = entryId entry) (entries s) > -1"
    using assms by (auto simp: findIndex_found)
  then show ?thesis by (simp add: pushEntry_def)
qed

lemma clone_id: "entryId (cloneAppHistoryEntry e opts fresh) = freshId fresh"
  by (simp add: cloneAppHistoryEntry_def)

lemma find_None_iff_key: "List.find (\<lambda>entry. key entry = k) xs = None \<longleftrightarrow> k \<notin> key ` set xs"
  by (auto simp: find_None_iff)


text \<open>
  Claim C8. With an identity for the clone that no entry of the sequence has (as the
  constructor gives), \<^verbatim>\<open>back\<close>, \<^verbatim>\<open>forward\<close>, \<^verbatim>\<open>goTo\<close> and \<^verbatim>\<open>reload\<close> return the error
  \<^verbatim>\<open>InvalidStateError\<close>, and neither a state nor a pair of promises, exactly when there is
  no entry before the current one, none after it, none with the key, or no current entry;
  otherwise the request is committed. A push or replace of an entry whose id is in the
  sequence returns \<^verbatim>\<open>InvalidStateError\<close>.
\<close>

theorem synchronous_validation:
  assumes fresh: "freshId fresh \<notin> entryId ` set (entries s)"
  shows
    "back_op options fresh s =
       (if 0 < currentIndex s \<and> currentIndex s \<le> int (length (entries s))
        then Inr (commitTransition (NavString Traverse)
                    (cloneAppHistoryEntry (nthOpt (entries s) (currentIndex s - 1))
                       (withNavigationType options Traverse) fresh) None None s)
        else Inl (InvalidStateError ''Cannot go back''))
     \<and> forward options fresh s =
       (if 0 \<le> currentIndex s \<and> currentIndex s + 1 < int (length (entries s))
        then Inr (commitTransition (NavString Traverse)
                    (cloneAppHistoryEntry (nthOpt (entries s) (currentIndex s + 1))
                       (withNavigationType options Traverse) fresh) None None s)
        else Inl (InvalidStateError []))
     \<and> goTo k options fresh s =
       (if k \<in> key ` set (entries s)
        then Inr (commitTransition (NavString Traverse)
                    (cloneAppHistoryEntry (List.find (\<lambda>entry. key entry = k) (entries s))
                       (withNavigationType options Traverse) fresh) None None s)
        else Inl (InvalidStateError []))
     \<and> reload options fresh s =
       (if current s \<noteq> None
        then Inr (commitTransition (NavString Reload)
                    (cloneAppHistoryEntry (current s) options fresh) None options s)
        else Inl (InvalidStateError []))
     \<and> (entryId entry \<in> entryId ` set (entries s) \<longrightarrow>
          pushEntry (NavString Push) entry t options s = Inl (InvalidStateError []) \<and>
          pushEntry (NavString Replace) entry t options s = Inl (InvalidStateError []))"
proof -
  have push: "\<And>ty e opts opts'. pushEntry ty (cloneAppHistoryEntry e opts fresh) None opts' s
      = Inr (commitTransition ty (cloneAppHistoryEntry e opts fresh) None opts' s)"
    by (rule pushEntry_fresh) (simp add: clone_id fresh)
  have b: "canGoBack s \<longleftrightarrow> 0 < currentIndex s \<and> currentIndex s \<le> int (length (entries s))"
    by (auto simp: canGoBack_def nthOpt_def)
  have f: "canGoForward s \<longleftrightarrow> 0 \<le> currentIndex s \<and> currentIndex s + 1 < int (length (entries s))"
    by (auto simp: canGoForward_def nthOpt_def)
  have 1: "back_op options fresh s =
       (if 0 < currentIndex s \<and> currentIndex s \<le> int (length (entries s))
        then Inr (commitTransition (NavString Traverse)
                    (cloneAppHistoryEntry (nthOpt (entries s) (currentIndex s - 1))
                       (withNavigationType options Traverse) fresh) None None s)
        else Inl (InvalidStateError ''Cannot go back''))"
    unfolding back_op_def Let_def push using b by simp
  have 2: "forward options fresh s =
       (if 0 \<le> currentIndex s \<and> currentIndex s + 1 < int (length (entries s))
        then Inr (commitTransition (NavString Traverse)
                    (cloneAppHistoryEntry (nthOpt (entries s) (currentIndex s + 1))
                       (withNavigationType options Traverse) fresh) None None s)
        else Inl (InvalidStateError []))"
    unfolding forward_def Let_def push using f by simp
  have 3: "goTo k options fresh s =
       (if k \<in> key ` set (entries s)
        then Inr (commitTransition (NavString Traverse)
                    (cloneAppHistoryEntry (List.find (\<lambda>entry. key entry = k) (entries s))
                       (withNavigationType options Traverse) fresh) None None s)
        else Inl (InvalidStateError []))"
  proof (cases "List.find (\<lambda>entry. key entry = k) (entries s)")
    case None
    then show ?thesis using find_None_iff_key[of k "entries s"] by (simp add: goTo_def)
  next
    case (Some found)
    then have "k \<in> key ` set (entries s)" using find_None_iff_key[of k "entries s"] by auto
    then show ?thesis using Some by (simp add: goTo_def push)
  qed
  have 4: "reload options fresh s =
       (if current s \<noteq> None
        then Inr (commitTransition (NavString Reload)
                    (cloneAppHistoryEntry (current s) options fresh) None options s)
        else Inl (InvalidStateError []))"
    by (cases "current s") (simp_all add: reload_def push)
  have 5: "entryId entry \<in> entryId ` set (entries s) \<longrightarrow>
          pushEntry (NavString Push) entry t options s = Inl (InvalidStateError []) \<and>
          pushEntry (NavString Replace) entry t options s = Inl (InvalidStateError [])"
    using pushEntry_existing by (metis imageE)
  from 1 2 3 4 5 show ?thesis by blast
qed



theorem synchronous_validation_witness:
  "freshId exampleFreshC \<notin> entryId ` set (entries exampleTwo) \<and>
   back_op None exampleFreshC exampleTwo =
     Inr (commitTransition (NavString Traverse)
            (cloneAppHistoryEntry (Some exampleEntryA) (withNavigationType None Traverse) exampleFreshC)
            None None exampleTwo) \<and>
   forward None exampleFreshC exampleTwo = Inl (InvalidStateError []) \<and>
   goTo ''kz'' None exampleFreshC exampleTwo = Inl (InvalidStateError []) \<and>
   reload None exampleFreshC exampleTwo =
     Inr (commitTransition (NavString Reload)
            (cloneAppHistoryEntry (Some exampleEntryB) None exampleFreshC) None None exampleTwo) \<and>
   pushEntry (NavString Push) exampleEntryA None None exampleTwo = Inl (InvalidStateError [])"
proof -
  have fresh: "freshId exampleFreshC \<notin> entryId ` set (entries exampleTwo)"
    by (simp add: exampleTwo_def exampleFreshC_def exampleEntryA_def exampleEntryB_def
        createAppHistoryEntry_def exampleFreshA_def exampleFreshB_def)
  have facts: "currentIndex exampleTwo = 1" "length (entries exampleTwo) = 2"
    "nthOpt (entries exampleTwo) 0 = Some exampleEntryA"
    "current exampleTwo = Some exampleEntryB"
    "''kz'' \<notin> key ` set (entries exampleTwo)"
    "entryId exampleEntryA \<in> entryId ` set (entries exampleTwo)"
    by (simp_all add: exampleTwo_def nthOpt_def current_def exampleEntryA_def exampleEntryB_def
        createAppHistoryEntry_def exampleFreshA_def exampleFreshB_def)
  show ?thesis
    using synchronous_validation[OF fresh, of None "''kz''" exampleEntryA None] fresh facts
    by simp
qed

section \<open>What accepting a request aborts\<close>


lemma pushEntry_abortedSignals:
  "pushEntry ty entry t opts s = Inr (s', res) \<Longrightarrow>
     abortedSignals s' =
       (if ty = UpdateCurrent then abortedSignals s
        else abortedSignals s \<union> set_option (inProgressAbortController s))"
  by (auto simp: pushEntry_def commitTransition_def Let_def queueTransition_def abortInProgress_def
      split: if_splits option.splits)

lemma pushEntry_signalAborted:
  assumes "pushEntry ty entry t opts (nav r) = Inr (s', res)"
    and "inProgressAbortController (nav r) = Some (abortController r)"
  shows "signalAborted (r\<lparr>nav := s'\<rparr>) = (ty \<noteq> UpdateCurrent \<or> signalAborted r)"
  using pushEntry_abortedSignals[OF assms(1)] assms(2) by (auto simp: signalAborted_def)

lemma newAbortController_in_progress:
  "inProgressAbortController (nav (newAbortController s)) = Some (abortController (newAbortController s))"
  by (simp add: newAbortController_def)

lemma not_aborted_example: "\<not> signalAborted (newAbortController exampleTwo)"
  by (simp add: signalAborted_def newAbortController_def exampleTwo_def initialAppHistory_def)

lemma string_abortedSignals:
  "pushEntry (NavString ty) entry t opts s = Inr (s', res) \<Longrightarrow>
     abortedSignals s' = abortedSignals s \<union> set_option (inProgressAbortController s)"
  using pushEntry_abortedSignals[of "NavString ty" entry t opts s s' res] by simp

lemma public_abortedSignals:
  assumes "navigate u options fresh s = Inr (s', res) \<or> back_op options fresh s = Inr (s', res)
     \<or> forward options fresh s = Inr (s', res) \<or> goTo k options fresh s = Inr (s', res)
     \<or> reload options fresh s = Inr (s', res)"
  shows "abortedSignals s' = abortedSignals s \<union> set_option (inProgressAbortController s)"
proof -
  have 1: "navigate u options fresh s = Inr (s', res) \<Longrightarrow> ?thesis"
    unfolding navigate_def Let_def by (rule string_abortedSignals)
  have 2: "back_op options fresh s = Inr (s', res) \<Longrightarrow> ?thesis"
    unfolding back_op_def Let_def by (cases "canGoBack s") (auto dest: string_abortedSignals)
  have 3: "forward options fresh s = Inr (s', res) \<Longrightarrow> ?thesis"
    unfolding forward_def Let_def by (cases "canGoForward s") (auto dest: string_abortedSignals)
  have 4: "goTo k options fresh s = Inr (s', res) \<Longrightarrow> ?thesis"
    unfolding goTo_def
    by (cases "List.find (\<lambda>entry. key entry = k) (entries s)") (auto dest: string_abortedSignals)
  have 5: "reload options fresh s = Inr (s', res) \<Longrightarrow> ?thesis"
    unfolding reload_def by (cases "current s") (auto dest: string_abortedSignals)
  from assms 1 2 3 4 5 show ?thesis by blast
qed

text \<open>
  Claim C4, as stated, fails. The callback of a chain link adds one to the counter and
  calls \<^verbatim>\<open>#transition\<close>, which awaits \<^verbatim>\<open>getPerformance()\<close> before it creates its abort
  controller and stores it in \<^verbatim>\<open>#inProgressAbortController\<close>: other code runs in the state
  after the \<open>enter\<close> step. A \<^verbatim>\<open>navigate("/b")\<close> accepted in that state, with the
  transition of \<^verbatim>\<open>navigate("/a")\<close> in flight, finds no controller and signals nothing; the
  transition of \<^verbatim>\<open>/a\<close> then creates its controller, is never aborted and commits its entry.
\<close>

theorem accepting_aborts_in_flight_counterexample:
  "transitionInProgressCount exampleEntered = 1
   \<and> map linkStatus (chain exampleEntered) = [Running]
   \<and> inProgressAbortController exampleEntered = None
   \<and> (case navigate ''/b'' None exampleFreshB exampleEntered of
         Inl e \<Rightarrow> None
       | Inr (s1, res) \<Rightarrow>
           Some (abortedSignals s1 = {},
                 case transition (NavString Push) exampleEntryA (Some exampleTransitionA) None
                        quietEnvironment s1 of
                   (result, s2, acts) \<Rightarrow> (result, entries s2, Mutated \<in> set acts)))
       = Some (True, Inr exampleEntryA, [exampleEntryA], True)"
  by code_simp

text \<open>
  Claim C4, amended. A request accepted through \<^verbatim>\<open>navigate\<close>, \<^verbatim>\<open>back\<close>, \<^verbatim>\<open>forward\<close>,
  \<^verbatim>\<open>goTo\<close> or \<^verbatim>\<open>reload\<close> signals abort, before it returns, on the controller stored in
  \<^verbatim>\<open>#inProgressAbortController\<close> at that moment, if there is one, and on no other; a
  request accepted through \<^verbatim>\<open>updateCurrent\<close> signals abort on none. So when the
  transition in flight has stored its controller there (which it does at its start, after
  awaiting \<^verbatim>\<open>getPerformance()\<close>), every accepted request other than \<^verbatim>\<open>updateCurrent\<close>
  leaves its signal aborted, and \<^verbatim>\<open>updateCurrent\<close> leaves its signal as it was.
\<close>

theorem accepting_aborts_in_flight:
  "(navigate u options fresh s = Inr (s', res) \<or> back_op options fresh s = Inr (s', res)
      \<or> forward options fresh s = Inr (s', res) \<or> goTo k options fresh s = Inr (s', res)
      \<or> reload options fresh s = Inr (s', res) \<longrightarrow>
      abortedSignals s' = abortedSignals s \<union> set_option (inProgressAbortController s))
   \<and> (updateCurrent options fresh s = Inr (s', res) \<longrightarrow> abortedSignals s' = abortedSignals s)
   \<and> (inProgressAbortController (nav r) = Some (abortController r) \<longrightarrow>
        (navigate u options fresh (nav r) = Inr (s', res) \<longrightarrow> signalAborted (r\<lparr>nav := s'\<rparr>))
        \<and> (back_op options fresh (nav r) = Inr (s', res) \<longrightarrow> signalAborted (r\<lparr>nav := s'\<rparr>))
        \<and> (forward options fresh (nav r) = Inr (s', res) \<longrightarrow> signalAborted (r\<lparr>nav := s'\<rparr>))
        \<and> (goTo k options fresh (nav r) = Inr (s', res) \<longrightarrow> signalAborted (r\<lparr>nav := s'\<rparr>))
        \<and> (reload options fresh (nav r) = Inr (s', res) \<longrightarrow> signalAborted (r\<lparr>nav := s'\<rparr>))
        \<and> (updateCurrent options fresh (nav r) = Inr (s', res) \<longrightarrow>
              signalAborted (r\<lparr>nav := s'\<rparr>) = signalAborted r))"
proof -
  have 1: "navigate u options fresh s = Inr (s', res) \<or> back_op options fresh s = Inr (s', res)
      \<or> forward options fresh s = Inr (s', res) \<or> goTo k options fresh s = Inr (s', res)
      \<or> reload options fresh s = Inr (s', res) \<longrightarrow>
      abortedSignals s' = abortedSignals s \<union> set_option (inProgressAbortController s)"
    using public_abortedSignals[of u options fresh s s' res k] by blast
  have 2: "updateCurrent options fresh s = Inr (s', res) \<longrightarrow> abortedSignals s' = abortedSignals s"
    using pushEntry_abortedSignals[of UpdateCurrent _ None options s s' res]
    by (simp add: updateCurrent_def)
  have 3: "inProgressAbortController (nav r) = Some (abortController r) \<longrightarrow>
        (navigate u options fresh (nav r) = Inr (s', res) \<longrightarrow> signalAborted (r\<lparr>nav := s'\<rparr>))
        \<and> (back_op options fresh (nav r) = Inr (s', res) \<longrightarrow> signalAborted (r\<lparr>nav := s'\<rparr>))
        \<and> (forward options fresh (nav r) = Inr (s', res) \<longrightarrow> signalAborted (r\<lparr>nav := s'\<rparr>))
        \<and> (goTo k options fresh (nav r) = Inr (s', res) \<longrightarrow> signalAborted (r\<lparr>nav := s'\<rparr>))
        \<and> (reload options fresh (nav r) = Inr (s', res) \<longrightarrow> signalAborted (r\<lparr>nav := s'\<rparr>))
        \<and> (updateCurrent options fresh (nav r) = Inr (s', res) \<longrightarrow>
              signalAborted (r\<lparr>nav := s'\<rparr>) = signalAborted r)"
  proof
    assume a: "inProgressAbortController (nav r) = Some (abortController r)"
    have p: "\<And>x. x = Inr (s', res) \<Longrightarrow>
        (navigate u options fresh (nav r) = x \<or> back_op options fresh (nav r) = x
         \<or> forward options fresh (nav r) = x \<or> goTo k options fresh (nav r) = x
         \<or> reload options fresh (nav r) = x) \<Longrightarrow> signalAborted (r\<lparr>nav := s'\<rparr>)"
      using public_abortedSignals[of u options fresh "nav r" s' res k] a
      by (auto simp: signalAborted_def)
    have u: "updateCurrent options fresh (nav r) = Inr (s', res) \<longrightarrow>
              signalAborted (r\<lparr>nav := s'\<rparr>) = signalAborted r"
      using pushEntry_abortedSignals[of UpdateCurrent _ None options "nav r" s' res]
      by (simp add: updateCurrent_def signalAborted_def)
    show "(navigate u options fresh (nav r) = Inr (s', res) \<longrightarrow> signalAborted (r\<lparr>nav := s'\<rparr>))
        \<and> (back_op options fresh (nav r) = Inr (s', res) \<longrightarrow> signalAborted (r\<lparr>nav := s'\<rparr>))
        \<and> (forward options fresh (nav r) = Inr (s', res) \<longrightarrow> signalAborted (r\<lparr>nav := s'\<rparr>))
        \<and> (goTo k options fresh (nav r) = Inr (s', res) \<longrightarrow> signalAborted (r\<lparr>nav := s'\<rparr>))
        \<and> (reload options fresh (nav r) = Inr (s', res) \<longrightarrow> signalAborted (r\<lparr>nav := s'\<rparr>))
        \<and> (updateCurrent options fresh (nav r) = Inr (s', res) \<longrightarrow>
              signalAborted (r\<lparr>nav := s'\<rparr>) = signalAborted r)"
      using p u by blast
  qed
  from 1 2 3 show ?thesis by blast
qed

theorem accepting_aborts_in_flight_witness:
  "inProgressAbortController (nav (newAbortController exampleTwo))
     = Some (abortController (newAbortController exampleTwo))
   \<and> \<not> signalAborted (newAbortController exampleTwo)
   \<and> navigate ''/c'' None exampleFreshC (nav (newAbortController exampleTwo))
       = Inr (commitTransition (NavString Push) exampleEntryC None None
                (nav (newAbortController exampleTwo)))
   \<and> signalAborted ((newAbortController exampleTwo)
        \<lparr>nav := fst (commitTransition (NavString Push) exampleEntryC None None
                      (nav (newAbortController exampleTwo)))\<rparr>)
   \<and> updateCurrent None exampleFreshC (nav (newAbortController exampleTwo))
       = Inr (commitTransition UpdateCurrent
                (cloneAppHistoryEntry (Some exampleEntryB) None exampleFreshC) None None
                (nav (newAbortController exampleTwo)))
   \<and> \<not> signalAborted ((newAbortController exampleTwo)
        \<lparr>nav := fst (commitTransition UpdateCurrent
                      (cloneAppHistoryEntry (Some exampleEntryB) None exampleFreshC) None None
                      (nav (newAbortController exampleTwo)))\<rparr>)
   \<and> inProgressAbortController exampleEntered = None
   \<and> navigate ''/b'' None exampleFreshB exampleEntered
       = Inr (commitTransition (NavString Push) exampleEntryB None None exampleEntered)
   \<and> abortedSignals (fst (commitTransition (NavString Push) exampleEntryB None None
                            exampleEntered)) = {}"
proof -
  let ?r = "newAbortController exampleTwo"
  have ids: "entryId exampleEntryA = ''a''" "entryId exampleEntryB = ''b''" "entryId exampleEntryC = ''c''"
    "freshId exampleFreshC = ''c''"
    by (simp_all add: exampleEntryA_def exampleEntryB_def exampleEntryC_def createAppHistoryEntry_def
        exampleFreshA_def exampleFreshB_def exampleFreshC_def)
  have ent: "entries (nav ?r) = [exampleEntryA, exampleEntryB]" "currentIndex (nav ?r) = 1"
    by (simp_all add: newAbortController_def exampleTwo_def)
  have cur: "current (nav ?r) = Some exampleEntryB"
    by (simp add: current_def ent nthOpt_def)
  have n: "navigate ''/c'' None exampleFreshC (nav ?r) =
      Inr (commitTransition (NavString Push) exampleEntryC None None (nav ?r))"
    unfolding navigate_def Let_def
    by (simp add: exampleEntryC_def[symmetric]) (rule pushEntry_fresh, simp add: ent ids)
  have u: "updateCurrent None exampleFreshC (nav ?r) =
      Inr (commitTransition UpdateCurrent (cloneAppHistoryEntry (Some exampleEntryB) None exampleFreshC)
             None None (nav ?r))"
    unfolding updateCurrent_def cur
    by (rule pushEntry_fresh) (simp add: ent ids clone_id)
  have e: "entries exampleEntered = []" "inProgressAbortController exampleEntered = None"
    "abortedSignals exampleEntered = {}"
    by (simp_all add: exampleEntered_def exampleAccepted_def commitTransition_def Let_def
        queueTransition_def abortInProgress_def initialAppHistory_def)
  have b: "navigate ''/b'' None exampleFreshB exampleEntered =
      Inr (commitTransition (NavString Push) exampleEntryB None None exampleEntered)"
    unfolding navigate_def Let_def
    by (simp add: exampleEntryB_def[symmetric]) (rule pushEntry_fresh, simp add: e)
  note th = accepting_aborts_in_flight[where u = "''/c''" and options = None
        and fresh = exampleFreshC and r = ?r and k = "''kz''"]
  have 1: "signalAborted (?r\<lparr>nav := fst (commitTransition (NavString Push) exampleEntryC None None
                      (nav ?r))\<rparr>)"
    using th[where s' = "fst (commitTransition (NavString Push) exampleEntryC None None (nav ?r))"
        and res = "snd (commitTransition (NavString Push) exampleEntryC None None (nav ?r))"]
      n newAbortController_in_progress[of exampleTwo] by simp
  have 2: "\<not> signalAborted (?r\<lparr>nav := fst (commitTransition UpdateCurrent
                      (cloneAppHistoryEntry (Some exampleEntryB) None exampleFreshC) None None
                      (nav ?r))\<rparr>)"
    using th[where s' = "fst (commitTransition UpdateCurrent
                      (cloneAppHistoryEntry (Some exampleEntryB) None exampleFreshC) None None (nav ?r))"
        and res = "snd (commitTransition UpdateCurrent
                      (cloneAppHistoryEntry (Some exampleEntryB) None exampleFreshC) None None (nav ?r))"]
      u newAbortController_in_progress[of exampleTwo] not_aborted_example by simp
  have 3: "abortedSignals (fst (commitTransition (NavString Push) exampleEntryB None None
                            exampleEntered)) = {}"
    using accepting_aborts_in_flight[where u = "''/b''" and options = None
        and fresh = exampleFreshB and s = exampleEntered
        and s' = "fst (commitTransition (NavString Push) exampleEntryB None None exampleEntered)"
        and res = "snd (commitTransition (NavString Push) exampleEntryB None None exampleEntered)"]
      b e by simp
  from 1 2 3 n u b e newAbortController_in_progress[of exampleTwo] not_aborted_example
  show ?thesis by simp
qed

section \<open>The array returned by \<^verbatim>\<open>entries()\<close>\<close>


text \<open>
  Claim C10. In a store where \<^verbatim>\<open>#entries\<close> is an allocated array, \<^verbatim>\<open>entries()\<close> returns a
  reference that is not the one of \<^verbatim>\<open>#entries\<close>, to an array with the same elements; the
  call leaves what the Navigator sees (its entry sequence, \<^verbatim>\<open>#currentIndex\<close> and
  \<^verbatim>\<open>#known\<close>) as it was, and so does every write through the returned reference.
\<close>

theorem entries_method_fresh_copy:
  assumes "entriesReference h < nextReference h"
  shows "arrays (snd (entries_method h)) (fst (entries_method h)) = arrays h (entriesReference h)
     \<and> fst (entries_method h) \<noteq> entriesReference (snd (entries_method h))
     \<and> observed (snd (entries_method h)) = observed h
     \<and> observed (writeArray (fst (entries_method h)) f (snd (entries_method h))) = observed h"
  using assms by (simp add: entries_method_def observed_def writeArray_def)

theorem entries_method_fresh_copy_witness:
  "entriesReference exampleStore < nextReference exampleStore
   \<and> fst (entries_method exampleStore) = 1
   \<and> arrays (snd (entries_method exampleStore)) 1 = Some [exampleEntryA, exampleEntryB]
   \<and> observed (writeArray 1 (\<lambda>xs. []) (snd (entries_method exampleStore)))
       = (Some [exampleEntryA, exampleEntryB], 1, [exampleEntryA, exampleEntryB])"
proof -
  have h: "entriesReference exampleStore < nextReference exampleStore"
    by (simp add: exampleStore_def)
  have f: "fst (entries_method exampleStore) = 1"
    by (simp add: entries_method_def exampleStore_def)
  have o: "observed exampleStore = (Some [exampleEntryA, exampleEntryB], 1, [exampleEntryA, exampleEntryB])"
    by (simp add: observed_def exampleStore_def)
  have a: "arrays exampleStore (entriesReference exampleStore) = Some [exampleEntryA, exampleEntryB]"
    by (simp add: exampleStore_def)
  show ?thesis
    using entries_method_fresh_copy[OF h, of "\<lambda>xs. []"] h f o a by simp
qed

section \<open>Disposal removes exactly the unreachable entries\<close>









section \<open>Every disposal is told of\<close>




















section \<open>What a rejection does\<close>







section \<open>Registering after the signal has fired\<close>


lemma keepsSignal_aborted: "keepsSignal r r' \<Longrightarrow> signalAborted r \<Longrightarrow> signalAborted r'"
  unfolding keepsSignal_def signalAborted_def by auto

lemma applyEffect_aborted:
  assumes "signalAborted r" "registers eff \<noteq> []"
  shows "applyEffect True eff r = (Some (InvalidStateError ''Event has already finished processing''), r)"
proof -
  obtain p ps where "registers eff = p # ps" using assms(2) by (cases "registers eff") auto
  then show ?thesis using assms(1) by (simp add: applyEffect_def transitionWhile_def)
qed

text \<open>
  Claim C9, as stated, fails: \<^verbatim>\<open>NavigationTransitionWhile\<close>, the registration function
  of a transition object (and the \<^verbatim>\<open>transitionWhile\<close> of its finish event), registers a
  promise on a transition whose signal has been aborted.
\<close>

theorem registration_after_abort_counterexample:
  "ntSignalAborted exampleRejectedTransition
   \<and> ntPromises (NavigationTransitionWhile 7 exampleRejectedTransition)
       = ntPromises exampleRejectedTransition @ [7]"
  by code_simp

text \<open>
  Claim C9, amended to the registration function of the Navigator. In a run of
  \<^verbatim>\<open>#transition\<close> whose abort signal has fired, \<^verbatim>\<open>transitionWhile\<close> returns the error
  \<^verbatim>\<open>InvalidStateError\<close> and leaves the run as it is, so that the dispatch of an event whose
  listeners register, and the awaiting of a sub-operation that registers, fail with that
  error and register nothing; the signal stays aborted through every further step of the
  protocol. The signal fires when a request other than \<^verbatim>\<open>updateCurrent\<close> is accepted
  while the controller of the run is the one in progress.
\<close>

theorem registration_after_abort:
  assumes "signalAborted r"
  shows "transitionWhile p r = (Some (InvalidStateError ''Event has already finished processing''), r)
     \<and> (carriesTransitionWhile ev \<and> registers (listeners env tgt ev) \<noteq> [] \<longrightarrow>
          dispatchEvent env tgt ev r
            = (Some (InvalidStateError ''Event has already finished processing''),
               r\<lparr>trace := trace r @ [Dispatched tgt ev]\<rparr>))
     \<and> (registers (subOperation env q) \<noteq> [] \<longrightarrow>
          awaitPromise env q r = (Some (InvalidStateError ''Event has already finished processing''), r))
     \<and> (set fs \<subseteq> set (protocol navigationType entry cur currentTransition env)
          \<and> steps fs r = (x, r') \<longrightarrow> signalAborted r')
     \<and> (inProgressAbortController (nav r0) = Some (abortController r0) \<longrightarrow>
          signalAborted (snd (acceptOtherRequest r0)))"
proof -
  have 1: "transitionWhile p r = (Some (InvalidStateError ''Event has already finished processing''), r)"
    using assms by (simp add: transitionWhile_def)
  have a: "signalAborted (r\<lparr>trace := trace r @ [Dispatched tgt ev]\<rparr>)"
    using assms by (simp add: signalAborted_def)
  have 2: "carriesTransitionWhile ev \<and> registers (listeners env tgt ev) \<noteq> [] \<longrightarrow>
          dispatchEvent env tgt ev r
            = (Some (InvalidStateError ''Event has already finished processing''),
               r\<lparr>trace := trace r @ [Dispatched tgt ev]\<rparr>)"
    using applyEffect_aborted[OF a] by (simp add: dispatchEvent_def log_def)
  have 3: "registers (subOperation env q) \<noteq> [] \<longrightarrow>
          awaitPromise env q r = (Some (InvalidStateError ''Event has already finished processing''), r)"
    using applyEffect_aborted[OF assms] by (simp add: awaitPromise_def)
  have 4: "set fs \<subseteq> set (protocol navigationType entry cur currentTransition env)
          \<and> steps fs r = (x, r') \<longrightarrow> signalAborted r'"
    using protocol_part_stepRelation[OF stepRelation_keepsSignal] keepsSignal_aborted assms by blast
  have 5: "inProgressAbortController (nav r0) = Some (abortController r0) \<longrightarrow>
          signalAborted (snd (acceptOtherRequest r0))"
    by (simp add: acceptOtherRequest_def abortInProgress_def signalAborted_def)
  from 1 2 3 4 5 show ?thesis by blast
qed

theorem registration_after_abort_witness:
  "inProgressAbortController (nav (newAbortController exampleTwo))
     = Some (abortController (newAbortController exampleTwo))
   \<and> \<not> signalAborted (newAbortController exampleTwo)
   \<and> signalAborted exampleAbortedRun
   \<and> transitionWhile 7 exampleAbortedRun
       = (Some (InvalidStateError ''Event has already finished processing''), exampleAbortedRun)
   \<and> carriesTransitionWhile Finish
   \<and> registers (listeners registeringEnvironment (OnEntry exampleEntryB) Finish) = [7]
   \<and> promises (snd (dispatchEvent registeringEnvironment (OnEntry exampleEntryB) Finish exampleAbortedRun)) = []
   \<and> fst (dispatchEvent registeringEnvironment (OnEntry exampleEntryB) Finish exampleAbortedRun)
       = Some (InvalidStateError ''Event has already finished processing'')
   \<and> registers (subOperation nestingEnvironment 1) = [2]
   \<and> awaitPromise nestingEnvironment 1 exampleAbortedRun
       = (Some (InvalidStateError ''Event has already finished processing''), exampleAbortedRun)
   \<and> signalAborted (snd (steps (protocol (NavString Push) exampleEntryC (Some exampleEntryB)
                                 exampleTransitionA quietEnvironment) exampleAbortedRun))"
proof -
  let ?p = "protocol (NavString Push) exampleEntryC (Some exampleEntryB) exampleTransitionA
              quietEnvironment"
  have c: "inProgressAbortController (nav (newAbortController exampleTwo))
     = Some (abortController (newAbortController exampleTwo))"
    "\<not> signalAborted (newAbortController exampleTwo)"
    by (simp_all add: newAbortController_def signalAborted_def exampleTwo_def initialAppHistory_def)
  have a: "signalAborted exampleAbortedRun"
    unfolding exampleAbortedRun_def
    using registration_after_abort[where ?r0.0 = "newAbortController exampleTwo"
        and r = "snd (acceptOtherRequest (newAbortController exampleTwo))"] c
    by (simp add: acceptOtherRequest_def newAbortController_def abortInProgress_def
        signalAborted_def)
  have p: "promises exampleAbortedRun = []"
    by (simp add: exampleAbortedRun_def acceptOtherRequest_def newAbortController_def)
  have l: "carriesTransitionWhile Finish"
    "registers (listeners registeringEnvironment (OnEntry exampleEntryB) Finish) = [7]"
    "registers (subOperation nestingEnvironment 1) = [2]"
    by (simp_all add: carriesTransitionWhile_def registeringEnvironment_def noEffect_def
        nestingEnvironment_def)
  have st: "steps ?p exampleAbortedRun = (fst (steps ?p exampleAbortedRun), snd (steps ?p exampleAbortedRun))"
    by simp
  show ?thesis
    using registration_after_abort[OF a, where p = 7 and ev = Finish
        and env = registeringEnvironment and tgt = "OnEntry exampleEntryB"]
      registration_after_abort[OF a, where q = 1 and env = nestingEnvironment]
      registration_after_abort[OF a, where fs = ?p and navigationType = "NavString Push"
        and entry = exampleEntryC and cur = "Some exampleEntryB"
        and currentTransition = exampleTransitionA and env = quietEnvironment
        and x = "fst (steps ?p exampleAbortedRun)" and r' = "snd (steps ?p exampleAbortedRun)"]
      a p l c st
    by simp
qed
section \<open>What the rollback of a failed transition restores\<close>

text \<open>
  Claim C2 does not hold of the code. The \<^verbatim>\<open>catch\<close> block of \<^verbatim>\<open>#transition\<close> invokes
  \<open>rollbackImmediately\<close>, the closure of \<^verbatim>\<open>this.#createRollback(this.#transition)\<close>,
  which was created without a transition object: the call of \<^verbatim>\<open>#transition\<close> inside it
  throws "Expected transition" before it reads the snapshot, and the rejection is dropped.
  So the invocation changes nothing of the Navigator, for every snapshot and every state.
  After \<^verbatim>\<open>navigate("/a")\<close> on an empty Navigator, with a listener of \<^verbatim>\<open>navigateto\<close> that
  throws, the snapshot holds no entry and the index \<open>-1\<close>, the rollback is invoked, and
  the transition ends with the entry in the sequence, the index \<open>0\<close> and the entry known.
  The branch of \<^verbatim>\<open>completeTransition\<close> for the kind \<open>Unset\<close> does put back the entries and
  the index handed over by a rollback closure, and adds the known entries handed over to
  the known ones.
\<close>

theorem failed_transition_not_restored:
  "rollbackImmediately env snap r = (None, r\<lparr>trace := trace r @ [RollbackImmediately]\<rparr>)
   \<and> createRollback (nav (newAbortController exampleAccepted))
       = \<lparr> snapCurrent = None, previousEntries = [], previousIndex = -1, snapKnown = [] \<rparr>
   \<and> (case transition (NavString Push) exampleEntryA (Some exampleTransitionA) None
               failingEnvironment exampleAccepted of
         (result, s', acts) \<Rightarrow> (result, entries s', currentIndex s', known s', acts))
       = (Inl (ApplicationError ''boom''), [exampleEntryA], 0, [exampleEntryA],
          [Dispatched OnNavigator Navigate, Mutated, Dispatched OnNavigator CurrentChange,
           Dispatched (OnEntry exampleEntryA) Navigateto, RollbackImmediately,
           Dispatched OnNavigator (Navigateerror (ApplicationError ''boom''))])
   \<and> completeTransition Unset entry (Some (snd (snd (rollbackArguments snap opts fresh)))) cur ct env r0
       = (None, r0\<lparr>nav := (nav r0)\<lparr>entries := previousEntries snap,
                                      currentIndex := previousIndex snap,
                                      known := newSet (known (nav r0) @ snapKnown snap)\<rparr>\<rparr>)"
proof -
  have 1: "rollbackImmediately env snap r = (None, r\<lparr>trace := trace r @ [RollbackImmediately]\<rparr>)"
    by (rule rollbackImmediately_restores_nothing)
  have 2: "createRollback (nav (newAbortController exampleAccepted))
       = \<lparr> snapCurrent = None, previousEntries = [], previousIndex = -1, snapKnown = [] \<rparr>"
    by code_simp
  have 3: "(case transition (NavString Push) exampleEntryA (Some exampleTransitionA) None
               failingEnvironment exampleAccepted of
         (result, s', acts) \<Rightarrow> (result, entries s', currentIndex s', known s', acts))
       = (Inl (ApplicationError ''boom''), [exampleEntryA], 0, [exampleEntryA],
          [Dispatched OnNavigator Navigate, Mutated, Dispatched OnNavigator CurrentChange,
           Dispatched (OnEntry exampleEntryA) Navigateto, RollbackImmediately,
           Dispatched OnNavigator (Navigateerror (ApplicationError ''boom''))])"
    by code_simp
  have 4: "completeTransition Unset entry (Some (snd (snd (rollbackArguments snap opts fresh)))) cur ct env r0
       = (None, r0\<lparr>nav := (nav r0)\<lparr>entries := previousEntries snap,
                                      currentIndex := previousIndex snap,
                                      known := newSet (known (nav r0) @ snapKnown snap)\<rparr>\<rparr>)"
    by (simp add: completeTransition_def isRestore_def rollbackArguments_def Let_def
        restoreSnapshot_def)
  from 1 2 3 4 show ?thesis by simp
qed

section \<open>When the two promises of a request resolve\<close>

text \<open>
  Claim C3, as stated, fails: \<^verbatim>\<open>#commitTransition\<close> returns \<^verbatim>\<open>Promise.resolve(entry)\<close> as
  \<open>committed\<close>, a promise that is resolved when \<^verbatim>\<open>navigate("/a")\<close> returns, while the
  entry sequence is still empty and the chain link of the request has not started; and
  \<open>finished\<close> resolves although promise 3, registered by a sub-operation that was itself
  registered by a sub-operation, has not been awaited.
\<close>

theorem committed_finished_timing_counterexample:
  "navigate ''/a'' None exampleFreshA initialAppHistory
     = Inr (exampleAccepted, \<lparr> committed = Resolved exampleEntryA, finished = Chained 0 \<rparr>)
   \<and> entries exampleAccepted = [] \<and> currentIndex exampleAccepted = -1
   \<and> known exampleAccepted = []
   \<and> map linkStatus (chain exampleAccepted) = [Pending]
   \<and> (case immediateTransition (NavString Push) exampleEntryA exampleTransitionA None
               nestingEnvironment exampleAccepted of
         (result, s', acts) \<Rightarrow> (result, Registered 3 \<in> set acts, Awaited 3 \<in> set acts))
       = (Inr exampleEntryA, True, False)"
proof -
  have 1: "navigate ''/a'' None exampleFreshA initialAppHistory
     = Inr (exampleAccepted, \<lparr> committed = Resolved exampleEntryA, finished = Chained 0 \<rparr>)"
    by (simp add: navigate_def pushEntry_def exampleAccepted_def exampleEntryA_def current_def
      initialAppHistory_def commitTransition_def Let_def)
  have 2: "entries exampleAccepted = [] \<and> currentIndex exampleAccepted = -1
   \<and> known exampleAccepted = []
   \<and> map linkStatus (chain exampleAccepted) = [Pending]"
    by code_simp
  have 3: "(case immediateTransition (NavString Push) exampleEntryA exampleTransitionA None
               nestingEnvironment exampleAccepted of
         (result, s', acts) \<Rightarrow> (result, Registered 3 \<in> set acts, Awaited 3 \<in> set acts))
       = (Inr exampleEntryA, True, False)"
    by code_simp
  from 1 2 3 show ?thesis by simp
qed

text \<open>
  Claim C3, amended. The \<open>committed\<close> promise of an accepted request is resolved with the
  entry when the operation returns: the request has only been chained, and the entries,
  the index and the known entries are as before. The \<open>finished\<close> promise is the promise
  of the chain link, which resolves with the result of \<^verbatim>\<open>#immediateTransition\<close>; when
  that call returns, for a request that is not the restoring of a snapshot, the three
  assignments have been made, the entries and the index are those of the transition
  result, \<^verbatim>\<open>currentchange\<close> has been dispatched if the entry is same-document, and, for a
  string kind, the finish event and \<^verbatim>\<open>navigatesuccess\<close> have been dispatched; and when no
  sub-operation registers another one, every sub-operation registered has been awaited.
\<close>

theorem committed_finished_timing:
  "(pushEntry navigationType entry t0 options s = Inr (s1, res) \<longrightarrow>
      committed res = Resolved entry \<and> finished res = Chained (length (chain s))
      \<and> entries s1 = entries s \<and> currentIndex s1 = currentIndex s \<and> known s1 = known s
      \<and> length (chain s1) = Suc (length (chain s))
      \<and> linkStatus (chain s1 ! length (chain s)) = Pending
      \<and> linkType (chain s1 ! length (chain s)) = navigationType
      \<and> linkEntry (chain s1 ! length (chain s)) = entry
      \<and> linkOptions (chain s1 ! length (chain s)) = options)
   \<and> (immediateTransition navigationType entry t options env sa = (Inr e, s', acts)
        \<and> \<not> isRestore navigationType options \<longrightarrow>
        e = entry \<and> Mutated \<in> set acts
        \<and> (sameDocument entry \<longrightarrow> Dispatched OnNavigator CurrentChange \<in> set acts)
        \<and> entries s' = resEntries (snd (createAppHistoryTransition env))
        \<and> currentIndex s' = resIndex (snd (createAppHistoryTransition env))
        \<and> (isString navigationType \<longrightarrow>
              Dispatched (OnEntry entry) Finish \<in> set acts
              \<and> Dispatched OnNavigator Navigatesuccess \<in> set acts))
   \<and> (immediateTransition navigationType entry t options env sa = (Inr e, s', acts)
        \<and> (\<forall>p. registers (subOperation env p) = []) \<longrightarrow>
        (\<forall>p. Registered p \<in> set acts \<longrightarrow> Awaited p \<in> set acts))"
proof -
  have 1: "pushEntry navigationType entry t0 options s = Inr (s1, res) \<longrightarrow>
      committed res = Resolved entry \<and> finished res = Chained (length (chain s))
      \<and> entries s1 = entries s \<and> currentIndex s1 = currentIndex s \<and> known s1 = known s
      \<and> length (chain s1) = Suc (length (chain s))
      \<and> linkStatus (chain s1 ! length (chain s)) = Pending
      \<and> linkType (chain s1 ! length (chain s)) = navigationType
      \<and> linkEntry (chain s1 ! length (chain s)) = entry
      \<and> linkOptions (chain s1 ! length (chain s)) = options"
    by (auto simp: pushEntry_def commitTransition_def Let_def queueTransition_def
        abortInProgress_def split: if_splits option.splits)
  have 2: "immediateTransition navigationType entry t options env sa = (Inr e, s', acts)
        \<and> \<not> isRestore navigationType options \<longrightarrow>
        e = entry \<and> Mutated \<in> set acts
        \<and> (sameDocument entry \<longrightarrow> Dispatched OnNavigator CurrentChange \<in> set acts)
        \<and> entries s' = resEntries (snd (createAppHistoryTransition env))
        \<and> currentIndex s' = resIndex (snd (createAppHistoryTransition env))
        \<and> (isString navigationType \<longrightarrow>
              Dispatched (OnEntry entry) Finish \<in> set acts
              \<and> Dispatched OnNavigator Navigatesuccess \<in> set acts)"
  proof
    assume a: "immediateTransition navigationType entry t options env sa = (Inr e, s', acts)
        \<and> \<not> isRestore navigationType options"
    let ?s = "sa\<lparr>transitionInProgressCount := transitionInProgressCount sa + 1\<rparr>"
    from immediateTransition_success[of navigationType entry t options env sa e s' acts] a
    obtain s2 where run: "transition navigationType entry (Some t) options env ?s = (Inr e, s2, acts)"
      and s': "s' = s2\<lparr>transitionInProgressCount := transitionInProgressCount s2 - 1\<rparr>"
      by blast
    have e: "e = entry" using transition_success[OF run] by simp
    note m = success_after_mutation[OF run] a
    have f: "isString navigationType \<longrightarrow>
              Dispatched (OnEntry entry) Finish \<in> set acts
              \<and> Dispatched OnNavigator Navigatesuccess \<in> set acts"
    proof
      assume str: "isString navigationType"
      show "Dispatched (OnEntry entry) Finish \<in> set acts
              \<and> Dispatched OnNavigator Navigatesuccess \<in> set acts"
        using finish_dispatched[OF run str] by simp
    qed
    show "e = entry \<and> Mutated \<in> set acts
        \<and> (sameDocument entry \<longrightarrow> Dispatched OnNavigator CurrentChange \<in> set acts)
        \<and> entries s' = resEntries (snd (createAppHistoryTransition env))
        \<and> currentIndex s' = resIndex (snd (createAppHistoryTransition env))
        \<and> (isString navigationType \<longrightarrow>
              Dispatched (OnEntry entry) Finish \<in> set acts
              \<and> Dispatched OnNavigator Navigatesuccess \<in> set acts)"
      using e m f s' by simp
  qed
  have 3: "immediateTransition navigationType entry t options env sa = (Inr e, s', acts)
        \<and> (\<forall>p. registers (subOperation env p) = []) \<longrightarrow>
        (\<forall>p. Registered p \<in> set acts \<longrightarrow> Awaited p \<in> set acts)"
  proof
    assume a: "immediateTransition navigationType entry t options env sa = (Inr e, s', acts)
        \<and> (\<forall>p. registers (subOperation env p) = [])"
    let ?s = "sa\<lparr>transitionInProgressCount := transitionInProgressCount sa + 1\<rparr>"
    from immediateTransition_success[of navigationType entry t options env sa e s' acts] a
    obtain s2 where run: "transition navigationType entry (Some t) options env ?s = (Inr e, s2, acts)"
      by blast
    from a have q: "\<And>p. registers (subOperation env p) = []" by simp
    show "\<forall>p. Registered p \<in> set acts \<longrightarrow> Awaited p \<in> set acts"
      by (rule registered_awaited[OF q run])
  qed
  from 1 2 3 show ?thesis by simp
qed


theorem committed_finished_timing_witness:
  "pushEntry (NavString Push) exampleEntryA None None initialAppHistory
     = Inr (exampleAccepted, \<lparr> committed = Resolved exampleEntryA, finished = Chained 0 \<rparr>)
   \<and> entries exampleAccepted = entries initialAppHistory
   \<and> linkStatus (chain exampleAccepted ! 0) = Pending
   \<and> fst exampleFinished = Inr exampleEntryA
   \<and> \<not> isRestore (NavString Push) None
   \<and> sameDocument exampleEntryA \<and> isString (NavString Push)
   \<and> (\<forall>p. registers (subOperation registeringEnvironment p) = [])
   \<and> Mutated \<in> set (snd (snd exampleFinished))
   \<and> Dispatched OnNavigator CurrentChange \<in> set (snd (snd exampleFinished))
   \<and> Dispatched (OnEntry exampleEntryA) Finish \<in> set (snd (snd exampleFinished))
   \<and> entries (fst (snd exampleFinished)) = [exampleEntryA]
   \<and> currentIndex (fst (snd exampleFinished)) = 0
   \<and> Registered 7 \<in> set (snd (snd exampleFinished))
   \<and> Awaited 7 \<in> set (snd (snd exampleFinished))"
proof -
  have acc: "pushEntry (NavString Push) exampleEntryA None None initialAppHistory
     = Inr (exampleAccepted, \<lparr> committed = Resolved exampleEntryA, finished = Chained 0 \<rparr>)"
    by (simp add: pushEntry_def exampleAccepted_def exampleEntryA_def current_def
      initialAppHistory_def commitTransition_def Let_def)
  have len: "length (chain initialAppHistory) = 0" by (simp add: initialAppHistory_def)
  have res: "fst exampleFinished = Inr exampleEntryA" by code_simp
  then have run: "immediateTransition (NavString Push) exampleEntryA exampleTransitionA None
       registeringEnvironment exampleAccepted
       = (Inr exampleEntryA, fst (snd exampleFinished), snd (snd exampleFinished))"
    unfolding exampleFinished_def by (metis prod.collapse)
  have h: "\<not> isRestore (NavString Push) None" "sameDocument exampleEntryA"
    "isString (NavString Push)" "\<forall>p. registers (subOperation registeringEnvironment p) = []"
    "resEntries (snd (createAppHistoryTransition registeringEnvironment)) = [exampleEntryA]"
    "resIndex (snd (createAppHistoryTransition registeringEnvironment)) = 0"
    by (simp_all add: isRestore_def isString_def exampleEntryA_def createAppHistoryEntry_def
        exampleFreshA_def registeringEnvironment_def quietEnvironment_def noEffect_def
        exampleResultA_def)
  have reg: "Registered 7 \<in> set (snd (snd exampleFinished))" by code_simp
  show ?thesis
    using committed_finished_timing[where navigationType = "NavString Push"
        and entry = exampleEntryA and ?t0.0 = None and options = None and s = initialAppHistory
        and ?s1.0 = exampleAccepted
        and res = "\<lparr> committed = Resolved exampleEntryA, finished = Chained 0 \<rparr>"
        and t = exampleTransitionA and env = registeringEnvironment and sa = exampleAccepted
        and e = exampleEntryA and s' = "fst (snd exampleFinished)"
        and acts = "snd (snd exampleFinished)"]
      acc len run h reg res
    by simp
qed
section \<open>Awaiting the sub-operations\<close>





end
